theory Spec2Isabelle
  imports Complex_Main "HOL-Library.Word" "HOL-Library.Log_Nat"
begin

section \<open>The C type \<^verbatim>\<open>float\<close>: IEEE 754 binary32\<close>

text \<open>
  Both renderers compute in \<^verbatim>\<open>float\<close>. A value is a finite number, one of the two
  infinities, the negative zero or a NaN; \<open>Fin 0\<close> is the positive zero. The finite
  values of the format are the rationals \<open>m * 2^e\<close> with \<open>\<bar>m\<bar> < 2^24\<close> and
  \<open>- 149 \<le> e \<le> 104\<close>. Every operation computes the exact rational result and rounds it
  once, to nearest with ties to even (the default rounding mode, which neither file
  changes), without fusing a product into a following sum.
\<close>

datatype f32 = Fin rat | NegZero | PInf | NInf | NaN

definition fval :: "f32 \<Rightarrow> rat" where
  "fval a = (case a of Fin q \<Rightarrow> q | _ \<Rightarrow> 0)"

definition fsign :: "f32 \<Rightarrow> bool" where
  "fsign a = (case a of Fin q \<Rightarrow> q < 0 | NegZero \<Rightarrow> True | NInf \<Rightarrow> True | _ \<Rightarrow> False)"

definition is_nan :: "f32 \<Rightarrow> bool" where
  "is_nan a \<longleftrightarrow> a = NaN"

definition is_inf :: "f32 \<Rightarrow> bool" where
  "is_inf a \<longleftrightarrow> a = PInf \<or> a = NInf"

definition is_zero :: "f32 \<Rightarrow> bool" where
  "is_zero a \<longleftrightarrow> a = Fin 0 \<or> a = NegZero"

text \<open>
  Rounding to nearest, ties to even. In units of \<open>2^-149\<close> (the smallest subnormal) the
  magnitude \<open>a\<close> lies in a binade whose neighbouring floats are \<open>2^e\<close> apart, where \<open>e\<close>
  is 0 up to \<open>2^24\<close> (subnormals and the first normal binade) and grows by one with each
  further bit of \<open>\<lfloor>a\<rfloor>\<close>. A result of magnitude \<open>2^128\<close> or more overflows to an infinity;
  a result that rounds to zero keeps the sign of the exact value.
\<close>

definition round_half_even :: "rat \<Rightarrow> int" where
  "round_half_even x =
     (let n = \<lfloor>x\<rfloor>; r = x - of_int n in
      if r < 1 / 2 then n else if 1 / 2 < r then n + 1 else if even n then n else n + 1)"

definition quantum_exp :: "rat \<Rightarrow> nat" where
  "quantum_exp a = nat (bitlen \<lfloor>a\<rfloor> - 24)"

definition round_mag :: "rat \<Rightarrow> int" where
  "round_mag a = round_half_even (a / 2 ^ quantum_exp a) * 2 ^ quantum_exp a"

definition rnd :: "rat \<Rightarrow> f32" where
  "rnd q =
     (let m = round_mag (\<bar>q\<bar> * 2 ^ 149)
      in if 2 ^ 277 \<le> m then (if q < 0 then NInf else PInf)
         else if m = 0 then (if q < 0 then NegZero else Fin 0)
         else Fin ((if q < 0 then - 1 else 1) * of_int m / 2 ^ 149))"

text \<open>A value of the format: rounding leaves it as it is.\<close>

definition is_f32 :: "f32 \<Rightarrow> bool" where
  "is_f32 a = (case a of Fin q \<Rightarrow> rnd q = Fin q | _ \<Rightarrow> True)"

definition is_finite :: "f32 \<Rightarrow> bool" where
  "is_finite a \<longleftrightarrow> is_f32 a \<and> \<not> is_nan a \<and> \<not> is_inf a"

subsection \<open>Arithmetic\<close>

definition fneg :: "f32 \<Rightarrow> f32" where
  "fneg a = (case a of
       Fin q \<Rightarrow> if q = 0 then NegZero else Fin (- q)
     | NegZero \<Rightarrow> Fin 0
     | PInf \<Rightarrow> NInf
     | NInf \<Rightarrow> PInf
     | NaN \<Rightarrow> NaN)"

definition fadd :: "f32 \<Rightarrow> f32 \<Rightarrow> f32" where
  "fadd a b =
     (if is_nan a \<or> is_nan b then NaN
      else if a = PInf then (if b = NInf then NaN else PInf)
      else if a = NInf then (if b = PInf then NaN else NInf)
      else if is_inf b then b
      else if a = NegZero \<and> b = NegZero then NegZero
      else rnd (fval a + fval b))"

definition fsub :: "f32 \<Rightarrow> f32 \<Rightarrow> f32" where
  "fsub a b = fadd a (fneg b)"

definition fmul :: "f32 \<Rightarrow> f32 \<Rightarrow> f32" where
  "fmul a b =
     (if is_nan a \<or> is_nan b then NaN
      else if (is_inf a \<and> is_zero b) \<or> (is_zero a \<and> is_inf b) then NaN
      else if is_inf a \<or> is_inf b then (if fsign a = fsign b then PInf else NInf)
      else if is_zero a \<or> is_zero b then (if fsign a = fsign b then Fin 0 else NegZero)
      else rnd (fval a * fval b))"

definition fdiv :: "f32 \<Rightarrow> f32 \<Rightarrow> f32" where
  "fdiv a b =
     (if is_nan a \<or> is_nan b then NaN
      else if (is_inf a \<and> is_inf b) \<or> (is_zero a \<and> is_zero b) then NaN
      else if is_inf a \<or> is_zero b then (if fsign a = fsign b then PInf else NInf)
      else if is_inf b \<or> is_zero a then (if fsign a = fsign b then Fin 0 else NegZero)
      else rnd (fval a / fval b))"

text \<open>
  \<^verbatim>\<open>fmodf(x, y)\<close>: the remainder \<open>x - n * y\<close> with \<open>n\<close> the quotient truncated towards
  zero, with the sign of \<open>x\<close>. The C library computes it exactly (the remainder of two
  floats is a float), so no rounding takes place.
\<close>

definition trunc_rat :: "rat \<Rightarrow> int" where
  "trunc_rat q = (if 0 \<le> q then \<lfloor>q\<rfloor> else \<lceil>q\<rceil>)"

definition fmodf :: "f32 \<Rightarrow> f32 \<Rightarrow> f32" where
  "fmodf x y =
     (if is_nan x \<or> is_nan y \<or> is_inf x \<or> is_zero y then NaN
      else if is_inf y \<or> is_zero x then x
      else let r = fval x - of_int (trunc_rat (fval x / fval y)) * fval y
           in if r = 0 then (if fsign x then NegZero else Fin 0) else Fin r)"

subsection \<open>Comparisons\<close>

text \<open>Every comparison with a NaN is false; the two zeros compare equal.\<close>

definition flt :: "f32 \<Rightarrow> f32 \<Rightarrow> bool" where
  "flt a b \<longleftrightarrow> \<not> is_nan a \<and> \<not> is_nan b \<and>
     (if a = NInf then b \<noteq> NInf
      else if b = PInf then a \<noteq> PInf
      else a \<noteq> PInf \<and> b \<noteq> NInf \<and> fval a < fval b)"

definition fle :: "f32 \<Rightarrow> f32 \<Rightarrow> bool" where
  "fle a b \<longleftrightarrow> \<not> is_nan a \<and> \<not> is_nan b \<and>
     (if a = NInf \<or> b = PInf then True
      else a \<noteq> PInf \<and> b \<noteq> NInf \<and> fval a \<le> fval b)"

definition fgt :: "f32 \<Rightarrow> f32 \<Rightarrow> bool" where
  "fgt a b \<longleftrightarrow> flt b a"

definition feq :: "f32 \<Rightarrow> f32 \<Rightarrow> bool" where
  "feq a b \<longleftrightarrow> fle a b \<and> fle b a"

text \<open>
  \<^verbatim>\<open>std::max(a, b)\<close> is \<^verbatim>\<open>(a < b) ? b : a\<close> and \<^verbatim>\<open>std::min(a, b)\<close> is
  \<^verbatim>\<open>(b < a) ? b : a\<close>.
\<close>

definition std_max :: "f32 \<Rightarrow> f32 \<Rightarrow> f32" where
  "std_max a b = (if flt a b then b else a)"

definition std_min :: "f32 \<Rightarrow> f32 \<Rightarrow> f32" where
  "std_min a b = (if flt b a then b else a)"

subsection \<open>Conversions\<close>

text \<open>
  An \<^verbatim>\<open>int\<close> operand of a \<^verbatim>\<open>float\<close> operation is converted by rounding. The cast
  \<^verbatim>\<open>static_cast<int>(f)\<close> truncates towards zero and has no defined result for a NaN, an
  infinity or a value outside the range of \<^verbatim>\<open>int\<close>.
\<close>

definition float_of_int :: "int \<Rightarrow> f32" where
  "float_of_int n = rnd (of_int n)"


section \<open>Pixel buffer renderer: the frame buffer and the background fill\<close>

text \<open>
  \<^verbatim>\<open>native_renderer.cpp\<close>, \<^verbatim>\<open>drawFrame\<close>. The locked buffer is an array of 32-bit cells
  behind \<^verbatim>\<open>buffer.bits\<close>, addressed by a C \<^verbatim>\<open>int\<close> index. The model keeps the cells as a
  function of the index and, beside them, the list of the indices stored to (latest
  first), so that "which cells were written" can be stated about the run and not only
  about the final contents.
\<close>

type_synonym pixel = "32 word"

record framebuffer =
  bits :: "int \<Rightarrow> pixel"
  written :: "int list"

text \<open>
  \<^verbatim>\<open>y * stride + x\<close> is computed in C \<^verbatim>\<open>int\<close> (32 bits on every Android ABI). Signed
  overflow has no defined result, so the index is \<open>None\<close> when the product or the sum
  leaves the range of \<^verbatim>\<open>int\<close>.
\<close>

definition int_ok :: "int \<Rightarrow> bool" where
  "int_ok i \<longleftrightarrow> - 2147483648 \<le> i \<and> i \<le> 2147483647"

definition pixel_index :: "int \<Rightarrow> int \<Rightarrow> int \<Rightarrow> int option" where
  "pixel_index y stride x =
     (if int_ok (y * stride) \<and> int_ok (y * stride + x) then Some (y * stride + x) else None)"

text \<open>\<^verbatim>\<open>pixels[i] = c\<close>\<close>

definition store_pixel :: "framebuffer \<Rightarrow> int \<Rightarrow> pixel \<Rightarrow> framebuffer" where
  "store_pixel fb i c = fb\<lparr>bits := (bits fb)(i := c), written := i # written fb\<rparr>"

text \<open>
  The background colour, lines 118-125. \<open>rgba\<close> is the outcome of the test
  \<^verbatim>\<open>buffer.format == WINDOW_FORMAT_RGBA_8888\<close>.
\<close>

definition bgColor :: "bool \<Rightarrow> pixel" where
  "bgColor rgba =
     (if rgba then or (or (or (push_bit 0 20) (push_bit 8 20)) (push_bit 16 30)) (push_bit 24 255)
      else or (or (or (push_bit 24 255) (push_bit 16 20)) (push_bit 8 20)) (push_bit 0 30))"

text \<open>
  Lines 128-134. The inner loop \<^verbatim>\<open>for (int x = 0; x < width; x++)\<close> from the current
  \<open>x\<close>, and the outer loop \<^verbatim>\<open>for (int y = 0; y < height; y++)\<close> from the current \<open>y\<close>.
\<close>

function fill_row :: "int \<Rightarrow> int \<Rightarrow> int \<Rightarrow> int \<Rightarrow> pixel \<Rightarrow> framebuffer \<Rightarrow> framebuffer option" where
  "fill_row x y width stride c fb =
     (if x < width then
        (case pixel_index y stride x of
           None \<Rightarrow> None
         | Some i \<Rightarrow> fill_row (x + 1) y width stride c (store_pixel fb i c))
      else Some fb)"
  by pat_completeness auto
termination
  by (relation "measure (\<lambda>(x, y, width, stride, c, fb). nat (width - x))") auto

function fill_rows :: "int \<Rightarrow> int \<Rightarrow> int \<Rightarrow> int \<Rightarrow> pixel \<Rightarrow> framebuffer \<Rightarrow> framebuffer option" where
  "fill_rows y height width stride c fb =
     (if y < height then
        (case fill_row 0 y width stride c fb of
           None \<Rightarrow> None
         | Some fb' \<Rightarrow> fill_rows (y + 1) height width stride c fb')
      else Some fb)"
  by pat_completeness auto
termination
  by (relation "measure (\<lambda>(y, height, width, stride, c, fb). nat (height - y))") auto

definition fill_background :: "int \<Rightarrow> int \<Rightarrow> int \<Rightarrow> pixel \<Rightarrow> framebuffer \<Rightarrow> framebuffer option" where
  "fill_background height width stride c fb = fill_rows 0 height width stride c fb"

text \<open>The indices of row \<open>y\<close> from column \<open>x\<close> on, and of the rows from \<open>y\<close> on, in program order.\<close>

definition row_cells :: "int \<Rightarrow> int \<Rightarrow> int \<Rightarrow> int \<Rightarrow> int list" where
  "row_cells x y width stride = map (\<lambda>x'. y * stride + x') [x..width - 1]"

definition rows_cells :: "int \<Rightarrow> int \<Rightarrow> int \<Rightarrow> int \<Rightarrow> int list" where
  "rows_cells y height width stride = concat (map (\<lambda>y'. row_cells 0 y' width stride) [y..height - 1])"

section \<open>Pixel buffer renderer: the animated circle\<close>

text \<open>
  Lines 140-153 of \<^verbatim>\<open>drawFrame\<close>: the position of the circle from the time accumulator
  \<^verbatim>\<open>g_time\<close> and the buffer's size.
\<close>

definition anim_cycle :: "f32 \<Rightarrow> f32" where
  "anim_cycle g_time = fmodf g_time (Fin 4)"

definition anim_progress :: "f32 \<Rightarrow> f32" where
  "anim_progress cycle =
     (if flt cycle (Fin 2) then fdiv cycle (Fin 2)
      else fsub (Fin 1) (fdiv (fsub cycle (Fin 2)) (Fin 2)))"

definition leftEdge :: f32 where
  "leftEdge = Fin 100"

definition rightEdge :: "int \<Rightarrow> f32" where
  "rightEdge width = fsub (float_of_int width) (Fin 100)"

definition circle_cx :: "f32 \<Rightarrow> int \<Rightarrow> f32" where
  "circle_cx g_time width =
     fadd leftEdge (fmul (anim_progress (anim_cycle g_time)) (fsub (rightEdge width) leftEdge))"


definition radius :: f32 where
  "radius = Fin 80"

definition radiusSq :: f32 where
  "radiusSq = fmul radius radius"

text \<open>
  The claim's "\<open>t mod 4\<close>", for a time that is not negative: the remainder of \<open>t\<close> by 4 in
  \<open>[0, 4)\<close>.
\<close>

definition phase :: "rat \<Rightarrow> rat" where
  "phase t = t - 4 * of_int \<lfloor>t / 4\<rfloor>"

text \<open>
  The same computation in exact arithmetic: the progress over the phase, a triangle wave
  between 0 and 1, and the centre it gives.
\<close>

definition triangle :: "rat \<Rightarrow> rat" where
  "triangle r = (if r < 2 then r / 2 else 1 - (r - 2) / 2)"

definition cx_exact :: "rat \<Rightarrow> int \<Rightarrow> rat" where
  "cx_exact t width = 100 + triangle (phase t) * ((of_int width - 100) - 100)"



text \<open>Lines 181-186: the distance test \<^verbatim>\<open>distSq <= radiusSq\<close> of the pixel \<open>(x, y)\<close>.\<close>

definition inside_circle :: "f32 \<Rightarrow> f32 \<Rightarrow> int \<Rightarrow> int \<Rightarrow> bool" where
  "inside_circle cx cy x y =
     (let dx = fsub (float_of_int x) cx;
          dy = fsub (float_of_int y) cy;
          distSq = fadd (fmul dx dx) (fmul dy dy)
      in fle distSq radiusSq)"


text \<open>
  Lines 178-190: the loop \<^verbatim>\<open>for (int x = minX; x <= maxX; x++)\<close> from the current \<open>x\<close>
  and the loop \<^verbatim>\<open>for (int y = minY; y <= maxY; y++)\<close> from the current \<open>y\<close>.
\<close>

function circle_row :: "int \<Rightarrow> int \<Rightarrow> int \<Rightarrow> f32 \<Rightarrow> f32 \<Rightarrow> int \<Rightarrow> pixel \<Rightarrow> framebuffer \<Rightarrow> framebuffer option" where
  "circle_row x y maxX cx cy stride c fb =
     (if x \<le> maxX then
        (if inside_circle cx cy x y then
           (case pixel_index y stride x of
              None \<Rightarrow> None
            | Some i \<Rightarrow> circle_row (x + 1) y maxX cx cy stride c (store_pixel fb i c))
         else circle_row (x + 1) y maxX cx cy stride c fb)
      else Some fb)"
  by pat_completeness auto
termination
  by (relation "measure (\<lambda>(x, y, maxX, cx, cy, stride, c, fb). nat (maxX + 1 - x))") auto

function circle_rows :: "int \<Rightarrow> int \<Rightarrow> int \<Rightarrow> int \<Rightarrow> f32 \<Rightarrow> f32 \<Rightarrow> int \<Rightarrow> pixel \<Rightarrow> framebuffer \<Rightarrow> framebuffer option" where
  "circle_rows y maxY minX maxX cx cy stride c fb =
     (if y \<le> maxY then
        (case circle_row minX y maxX cx cy stride c fb of
           None \<Rightarrow> None
         | Some fb' \<Rightarrow> circle_rows (y + 1) maxY minX maxX cx cy stride c fb')
      else Some fb)"
  by pat_completeness auto
termination
  by (relation "measure (\<lambda>(y, maxY, minX, maxX, cx, cy, stride, c, fb). nat (maxY + 1 - y))") auto




section \<open>Pixel buffer renderer: the surface session\<close>

text \<open>
  The globals of \<^verbatim>\<open>native_renderer.cpp\<close> that the surface callbacks assign: the window
  handle (\<open>None\<close> is \<^verbatim>\<open>nullptr\<close>), the thread handle and the running flag. Beside them
  the model keeps what the callbacks change outside the program: the references the
  process holds on each native window (\<^verbatim>\<open>ANativeWindow_fromSurface\<close> acquires one,
  \<^verbatim>\<open>ANativeWindow_release\<close> gives one back) and the render threads that were started.
\<close>

record native_session =
  g_window :: "nat option"
  g_render_thread :: nat
  g_running :: bool
  window_refs :: "nat \<Rightarrow> nat"
  started_threads :: "nat list"

definition ANativeWindow_release :: "nat \<Rightarrow> native_session \<Rightarrow> native_session" where
  "ANativeWindow_release w s = s\<lparr>window_refs := (window_refs s)(w := window_refs s w - 1)\<rparr>"

text \<open>
  \<^verbatim>\<open>Java_com_graphics_phase3_NativeRenderer_nativeOnSurfaceCreated\<close>, lines 260-303.
  \<open>from_surface\<close> is what \<^verbatim>\<open>ANativeWindow_fromSurface\<close> returns, \<open>result\<close> what
  \<^verbatim>\<open>pthread_create\<close> returns and \<open>tid\<close> what it leaves in \<^verbatim>\<open>g_render_thread\<close>. The
  queries of the window's size and format and \<^verbatim>\<open>ANativeWindow_setBuffersGeometry\<close> do not
  touch the session.
\<close>

definition nativeOnSurfaceCreated :: "nat option \<Rightarrow> int \<Rightarrow> nat \<Rightarrow> native_session \<Rightarrow> native_session" where
  "nativeOnSurfaceCreated from_surface result tid s =
     (case from_surface of
        None \<Rightarrow> s\<lparr>g_window := None\<rparr>
      | Some w \<Rightarrow>
          let s1 = s\<lparr>g_window := Some w, window_refs := (window_refs s)(w := window_refs s w + 1)\<rparr>;
              s2 = s1\<lparr>g_running := True\<rparr>;
              s3 = s2\<lparr>g_render_thread := tid\<rparr>
          in if result \<noteq> 0
             then (let s4 = s3\<lparr>g_running := False\<rparr>;
                       s5 = (case g_window s4 of None \<Rightarrow> s4 | Some w' \<Rightarrow> ANativeWindow_release w' s4)
                   in s5\<lparr>g_window := None\<rparr>)
             else s3\<lparr>started_threads := tid # started_threads s3\<rparr>)"

section \<open>GPU renderer: the animation state\<close>

text \<open>
  \<^verbatim>\<open>gl_renderer.cpp\<close>. The circle's position and velocity are four \<^verbatim>\<open>float\<close> globals; the
  radius is the constant \<^verbatim>\<open>0.1f\<close>, the float nearest to one tenth.
\<close>

record anim_state =
  g_circleX :: f32
  g_circleY :: f32
  g_velocityX :: f32
  g_velocityY :: f32

definition g_circleRadius :: f32 where
  "g_circleRadius = rnd (1 / 10)"

text \<open>The values the globals are initialised with: \<^verbatim>\<open>0.5f\<close>, \<^verbatim>\<open>0.5f\<close>, \<^verbatim>\<open>0.01f\<close>, \<^verbatim>\<open>0.015f\<close>.\<close>

definition anim_init :: anim_state where
  "anim_init = \<lparr>g_circleX = rnd (5 / 10), g_circleY = rnd (5 / 10),
                 g_velocityX = rnd (1 / 100), g_velocityY = rnd (15 / 1000)\<rparr>"

text \<open>
  The test of lines 378 and 383 on a position \<open>p\<close>:
  \<^verbatim>\<open>p - g_circleRadius < 0.0f || p + g_circleRadius > 1.0f\<close>.
\<close>

definition bounces :: "f32 \<Rightarrow> bool" where
  "bounces p \<longleftrightarrow> flt (fsub p g_circleRadius) (Fin 0) \<or> fgt (fadd p g_circleRadius) (Fin 1)"

text \<open>
  The clamp of lines 380 and 385:
  \<^verbatim>\<open>std::max(g_circleRadius, std::min(1.0f - g_circleRadius, p))\<close>.
\<close>

definition clamp_pos :: "f32 \<Rightarrow> f32" where
  "clamp_pos p = std_max g_circleRadius (std_min (fsub (Fin 1) g_circleRadius) p)"

text \<open>
  What the clamp is to achieve, written without \<^verbatim>\<open>std::max\<close> and \<^verbatim>\<open>std::min\<close>: the
  point of \<open>[r, 1 - r]\<close> nearest to \<open>p\<close>, which is the edge \<open>r\<close> for a position below
  it, the edge \<open>1 - r\<close> for a position above it, and \<open>p\<close> itself otherwise.
\<close>

definition nearest_valid :: "f32 \<Rightarrow> f32" where
  "nearest_valid p =
     (if flt p g_circleRadius then g_circleRadius
      else if fgt p (fsub (Fin 1) g_circleRadius) then fsub (Fin 1) g_circleRadius
      else p)"

text \<open>\<^verbatim>\<open>updateAnimation\<close>, lines 372-387, statement by statement.\<close>

definition updateAnimation :: "anim_state \<Rightarrow> anim_state" where
  "updateAnimation s =
     (let s1 = s\<lparr>g_circleX := fadd (g_circleX s) (g_velocityX s)\<rparr>;
          s2 = s1\<lparr>g_circleY := fadd (g_circleY s1) (g_velocityY s1)\<rparr>;
          s3 = (if bounces (g_circleX s2)
                then (let t = s2\<lparr>g_velocityX := fneg (g_velocityX s2)\<rparr>
                      in t\<lparr>g_circleX := clamp_pos (g_circleX t)\<rparr>)
                else s2);
          s4 = (if bounces (g_circleY s3)
                then (let t = s3\<lparr>g_velocityY := fneg (g_velocityY s3)\<rparr>
                      in t\<lparr>g_circleY := clamp_pos (g_circleY t)\<rparr>)
                else s3)
      in s4)"

text \<open>\<open>n\<close> calls of \<^verbatim>\<open>updateAnimation\<close>, one per frame, and the states passed through.\<close>

fun update_n :: "nat \<Rightarrow> anim_state \<Rightarrow> anim_state" where
  "update_n 0 s = s"
| "update_n (Suc n) s = updateAnimation (update_n n s)"

section \<open>GPU renderer: 4x4 matrices\<close>

text \<open>
  A matrix is sixteen consecutive \<^verbatim>\<open>float\<close> cells. \<^verbatim>\<open>multiplyMatrix\<close> receives three
  pointers, which may point to the same or to overlapping cells, so the memory is a
  function from cell addresses to floats and a pointer is the address of its first cell.
  The local array \<^verbatim>\<open>temp\<close> is a list of its own; it is not initialised, so its first
  contents \<open>temp0\<close> are arbitrary.
\<close>

type_synonym fmem = "nat \<Rightarrow> f32"

text \<open>Lines 244-251: the loops over \<open>k\<close>, \<open>j\<close> and \<open>i\<close>, innermost first.\<close>

definition mm_k_loop :: "fmem \<Rightarrow> nat \<Rightarrow> nat \<Rightarrow> nat \<Rightarrow> nat \<Rightarrow> f32 list \<Rightarrow> f32 list" where
  "mm_k_loop mem a b i j temp =
     fold (\<lambda>k t. t[i * 4 + j := fadd (t ! (i * 4 + j)) (fmul (mem (a + (i * 4 + k))) (mem (b + (k * 4 + j))))])
       [0..<4] temp"

definition mm_j_loop :: "fmem \<Rightarrow> nat \<Rightarrow> nat \<Rightarrow> nat \<Rightarrow> f32 list \<Rightarrow> f32 list" where
  "mm_j_loop mem a b i temp =
     fold (\<lambda>j t. mm_k_loop mem a b i j (t[i * 4 + j := Fin 0])) [0..<4] temp"

definition mm_i_loop :: "fmem \<Rightarrow> nat \<Rightarrow> nat \<Rightarrow> f32 list \<Rightarrow> f32 list" where
  "mm_i_loop mem a b temp = fold (\<lambda>i t. mm_j_loop mem a b i t) [0..<4] temp"

text \<open>Lines 253-255: \<^verbatim>\<open>result[i] = temp[i]\<close> for \<open>i\<close> from 0 to 15.\<close>

definition mm_copy :: "nat \<Rightarrow> f32 list \<Rightarrow> fmem \<Rightarrow> fmem" where
  "mm_copy result temp mem = fold (\<lambda>i m. m(result + i := temp ! i)) [0..<16] mem"

definition multiplyMatrix :: "f32 list \<Rightarrow> nat \<Rightarrow> nat \<Rightarrow> nat \<Rightarrow> fmem \<Rightarrow> fmem" where
  "multiplyMatrix temp0 result a b mem = mm_copy result (mm_i_loop mem a b temp0) mem"

text \<open>The matrix stored at an address, as the list of its sixteen entries.\<close>

definition matrix_at :: "fmem \<Rightarrow> nat \<Rightarrow> f32 list" where
  "matrix_at mem p = map (\<lambda>n. mem (p + n)) [0..<16]"

text \<open>
  The standard row-major product, as the specification has it: entry \<open>(i, j)\<close>, stored at
  index \<open>4 * i + j\<close>, is the sum over \<open>k\<close> of \<open>A[4 * i + k] * B[4 * k + j]\<close>, added up from
  \<^verbatim>\<open>0.0f\<close> in the order \<open>k = 0, 1, 2, 3\<close>.
\<close>

definition product_entry :: "f32 list \<Rightarrow> f32 list \<Rightarrow> nat \<Rightarrow> nat \<Rightarrow> f32" where
  "product_entry A B i j =
     fadd (fadd (fadd (fadd (Fin 0)
       (fmul (A ! (4 * i + 0)) (B ! (4 * 0 + j))))
       (fmul (A ! (4 * i + 1)) (B ! (4 * 1 + j))))
       (fmul (A ! (4 * i + 2)) (B ! (4 * 2 + j))))
       (fmul (A ! (4 * i + 3)) (B ! (4 * 3 + j)))"

definition matrix_product :: "f32 list \<Rightarrow> f32 list \<Rightarrow> f32 list" where
  "matrix_product A B = map (\<lambda>n. product_entry A B (n div 4) (n mod 4)) [0..<16]"

text \<open>The identity matrix, as \<^verbatim>\<open>createTranslationMatrix(m, 0, 0)\<close> builds it.\<close>

definition identity_matrix :: "f32 list" where
  "identity_matrix = map (\<lambda>n. if n mod 5 = 0 then Fin 1 else Fin 0) [0..<16]"

section \<open>GPU renderer: shader objects and the program\<close>

text \<open>
  The part of the OpenGL ES 2.0 object model that \<^verbatim>\<open>compileShader\<close>, \<^verbatim>\<open>createProgram\<close>
  and \<^verbatim>\<open>initGL\<close> act on: the shader and program objects alive in the context, the
  shaders attached to each program, and the shaders flagged for deletion.
  \<^verbatim>\<open>glDeleteShader\<close> deletes a shader at once unless it is attached to a program, in which
  case it is flagged and deleted when it is detached from the last program;
  \<^verbatim>\<open>glDeleteProgram\<close> deletes the program and detaches its shaders. Names that are not
  objects are ignored.
\<close>

record gl_context =
  shaders :: "nat set"
  programs :: "nat set"
  attached :: "nat \<Rightarrow> nat set"
  flagged :: "nat set"
  buffers :: "nat set"

definition glDeleteShader :: "nat \<Rightarrow> gl_context \<Rightarrow> gl_context" where
  "glDeleteShader sh c =
     (if sh \<notin> shaders c then c
      else if \<exists>p \<in> programs c. sh \<in> attached c p then c\<lparr>flagged := insert sh (flagged c)\<rparr>
      else c\<lparr>shaders := shaders c - {sh}, flagged := flagged c - {sh}\<rparr>)"

definition glDeleteProgram :: "nat \<Rightarrow> gl_context \<Rightarrow> gl_context" where
  "glDeleteProgram p c =
     (if p \<notin> programs c then c
      else let rest = programs c - {p};
               gone = {sh \<in> attached c p. sh \<in> flagged c \<and> (\<forall>q \<in> rest. sh \<notin> attached c q)}
           in c\<lparr>programs := rest, attached := (attached c)(p := {}),
                shaders := shaders c - gone, flagged := flagged c - gone\<rparr>)"

definition glAttachShader :: "nat \<Rightarrow> nat \<Rightarrow> gl_context \<Rightarrow> gl_context" where
  "glAttachShader p sh c =
     (if p \<in> programs c \<and> sh \<in> shaders c then c\<lparr>attached := (attached c)(p := insert sh (attached c p))\<rparr>
      else c)"

text \<open>
  What the driver answers during one initialisation: the names \<^verbatim>\<open>glCreateShader\<close> and
  \<^verbatim>\<open>glCreateProgram\<close> return (0 when the object cannot be created), the compile status
  of each stage, the link status, the uniform locations and the buffer name.
\<close>

record gl_driver =
  vs_name :: nat
  vs_compiled :: bool
  fs_name :: nat
  fs_compiled :: bool
  prog_name :: nat
  prog_linked :: bool
  mvp_location :: int
  color_location :: int
  vbo_name :: nat

text \<open>
  \<^verbatim>\<open>compileShader\<close>, lines 95-127, for a shader the driver names \<open>name\<close> and whose
  compile status is \<open>compiled\<close>. It returns the handle, 0 on failure.
\<close>

definition compileShader :: "nat \<Rightarrow> bool \<Rightarrow> gl_context \<Rightarrow> nat \<times> gl_context" where
  "compileShader name compiled c =
     (if name = 0 then (0, c)
      else let c1 = c\<lparr>shaders := insert name (shaders c)\<rparr>
           in if \<not> compiled then (0, glDeleteShader name c1) else (name, c1))"

text \<open>\<^verbatim>\<open>createProgram\<close>, lines 131-184.\<close>

definition createProgram :: "gl_driver \<Rightarrow> gl_context \<Rightarrow> nat \<times> gl_context" where
  "createProgram d c =
     (let (vertexShader, c1) = compileShader (vs_name d) (vs_compiled d) c in
      if vertexShader = 0 then (0, c1)
      else let (fragmentShader, c2) = compileShader (fs_name d) (fs_compiled d) c1 in
      if fragmentShader = 0 then (0, glDeleteShader vertexShader c2)
      else let program = prog_name d;
               c3 = (if program = 0 then c2 else c2\<lparr>programs := insert program (programs c2)\<rparr>) in
      if program = 0 then (0, glDeleteShader fragmentShader (glDeleteShader vertexShader c3))
      else let c4 = glAttachShader program fragmentShader (glAttachShader program vertexShader c3) in
      if \<not> prog_linked d
      then (0, glDeleteShader fragmentShader (glDeleteShader vertexShader (glDeleteProgram program c4)))
      else (program, glDeleteShader fragmentShader (glDeleteShader vertexShader c4)))"

text \<open>The renderer's globals that \<^verbatim>\<open>initGL\<close> and \<^verbatim>\<open>cleanupGL\<close> assign, with the context.\<close>

record gl_renderer =
  g_shaderProgram :: nat
  g_mvpMatrixLocation :: int
  g_colorLocation :: int
  g_vbo :: nat
  gl_ctx :: gl_context

text \<open>\<^verbatim>\<open>initGL\<close>, lines 263-296: the result and the state it leaves.\<close>

definition initGL :: "gl_driver \<Rightarrow> gl_renderer \<Rightarrow> bool \<times> gl_renderer" where
  "initGL d r =
     (let (program, c1) = createProgram d (gl_ctx r);
          r1 = r\<lparr>g_shaderProgram := program, gl_ctx := c1\<rparr> in
      if g_shaderProgram r1 = 0 then (False, r1)
      else let r2 = r1\<lparr>g_mvpMatrixLocation := mvp_location d\<rparr>;
               r3 = r2\<lparr>g_colorLocation := color_location d\<rparr>;
               r4 = r3\<lparr>g_vbo := vbo_name d,
                       gl_ctx := (gl_ctx r3)\<lparr>buffers := insert (vbo_name d) (buffers (gl_ctx r3))\<rparr>\<rparr>
           in (True, r4))"

section \<open>Proofs: rounding\<close>

text \<open>
  Rounding to nearest is monotone, its results lie on the grid of the format, and a
  rational whose neighbours on the grid are known rounds to the nearer one. The last
  fact evaluates the arithmetic on concrete floats by checking inequalities between
  numerals.
\<close>

lemma rhe_of_int: "round_half_even (of_int n) = n"
  by (simp add: round_half_even_def)

lemma rhe_cases: "round_half_even x = \<lfloor>x\<rfloor> \<or> round_half_even x = \<lfloor>x\<rfloor> + 1"
  by (simp add: round_half_even_def Let_def)

lemma rhe_mono:
  assumes "x \<le> y"
  shows "round_half_even x \<le> round_half_even y"
proof (cases "\<lfloor>x\<rfloor> = \<lfloor>y\<rfloor>")
  case True
  have "x - of_int \<lfloor>x\<rfloor> \<le> y - of_int \<lfloor>x\<rfloor>" using assms by simp
  then show ?thesis
    using True by (auto simp: round_half_even_def Let_def)
next
  case False
  have "\<lfloor>x\<rfloor> \<le> \<lfloor>y\<rfloor>" using assms by (rule floor_mono)
  with False have "\<lfloor>x\<rfloor> + 1 \<le> \<lfloor>y\<rfloor>" by simp
  moreover have "round_half_even x \<le> \<lfloor>x\<rfloor> + 1" using rhe_cases [of x] by auto
  moreover have "\<lfloor>y\<rfloor> \<le> round_half_even y" using rhe_cases [of y] by auto
  ultimately show ?thesis by linarith
qed

lemma rhe_error: "\<bar>of_int (round_half_even x) - x\<bar> \<le> 1 / 2"
proof -
  have "of_int \<lfloor>x\<rfloor> \<le> x" "x < of_int \<lfloor>x\<rfloor> + 1" by linarith+
  then show ?thesis
    by (auto simp: round_half_even_def Let_def abs_le_iff)
qed

lemma bitlen_mono:
  assumes "x \<le> y"
  shows "bitlen x \<le> bitlen y"
proof (cases "0 < y")
  case True
  then have "y < 2 ^ nat (bitlen y)" using bitlen_bounds by blast
  with assms have "x < 2 ^ nat (bitlen y)" by simp
  then show ?thesis by (simp add: bitlen_le_iff_power bitlen_nonneg)
next
  case False
  with assms have "x \<le> 0" by simp
  then have "bitlen x = 0" by (simp add: bitlen_eq_zero_iff)
  then show ?thesis by (simp add: bitlen_nonneg)
qed

lemma quantum_exp_mono: "a \<le> b \<Longrightarrow> quantum_exp a \<le> quantum_exp b"
  unfolding quantum_exp_def
  by (intro nat_mono diff_right_mono bitlen_mono floor_mono)

lemma below_quantum:
  assumes "0 \<le> a"
  shows "a < 2 ^ (24 + quantum_exp a)"
proof -
  have "\<lfloor>a\<rfloor> < 2 ^ nat (bitlen \<lfloor>a\<rfloor>)"
  proof (cases "0 < \<lfloor>a\<rfloor>")
    case True
    then show ?thesis using bitlen_bounds by blast
  next
    case False
    then have "\<lfloor>a\<rfloor> \<le> 0" by simp
    also have "(0::int) < 2 ^ nat (bitlen \<lfloor>a\<rfloor>)" by simp
    finally show ?thesis .
  qed
  also have "(2::int) ^ nat (bitlen \<lfloor>a\<rfloor>) \<le> 2 ^ (24 + quantum_exp a)"
    by (rule power_increasing) (simp_all add: quantum_exp_def)
  finally have "\<lfloor>a\<rfloor> < 2 ^ (24 + quantum_exp a)" .
  then have "a < of_int (2 ^ (24 + quantum_exp a))"
    by (simp only: floor_less_iff)
  then show ?thesis by simp
qed

lemma above_quantum:
  assumes "0 < quantum_exp a"
  shows "2 ^ (23 + quantum_exp a) \<le> a"
proof -
  have b: "bitlen \<lfloor>a\<rfloor> = 24 + int (quantum_exp a)"
    using assms by (simp add: quantum_exp_def)
  then have pos: "0 < \<lfloor>a\<rfloor>"
    using bitlen_eq_zero_iff [of "\<lfloor>a\<rfloor>"] by (cases "0 < \<lfloor>a\<rfloor>") simp_all
  have "nat (bitlen \<lfloor>a\<rfloor> - 1) = 23 + quantum_exp a"
    using b by simp
  with bitlen_bounds [OF pos] have "2 ^ (23 + quantum_exp a) \<le> \<lfloor>a\<rfloor>" by simp
  then have "of_int (2 ^ (23 + quantum_exp a)) \<le> a"
    by (simp only: le_floor_iff)
  then show ?thesis by simp
qed

lemma round_mag_upper:
  assumes "0 \<le> a"
  shows "round_mag a \<le> 2 ^ (24 + quantum_exp a)"
proof -
  let ?e = "quantum_exp a"
  have "a / 2 ^ ?e \<le> 2 ^ 24"
    using below_quantum [OF assms] by (simp add: power_add divide_le_eq)
  then have "round_half_even (a / 2 ^ ?e) \<le> round_half_even (of_int (2 ^ 24))"
    by (intro rhe_mono) simp
  then have "round_half_even (a / 2 ^ ?e) \<le> 2 ^ 24"
    by (simp only: rhe_of_int)
  then have "round_half_even (a / 2 ^ ?e) * 2 ^ ?e \<le> 2 ^ 24 * 2 ^ ?e"
    by (intro mult_right_mono) simp_all
  then show ?thesis
    by (simp add: round_mag_def power_add)
qed

lemma round_mag_lower:
  assumes "0 < quantum_exp a"
  shows "2 ^ (23 + quantum_exp a) \<le> round_mag a"
proof -
  let ?e = "quantum_exp a"
  have "2 ^ 23 \<le> a / 2 ^ ?e"
    using above_quantum [OF assms] by (simp add: power_add le_divide_eq)
  then have "round_half_even (of_int (2 ^ 23)) \<le> round_half_even (a / 2 ^ ?e)"
    by (intro rhe_mono) simp
  then have "2 ^ 23 \<le> round_half_even (a / 2 ^ ?e)"
    by (simp only: rhe_of_int)
  then have "2 ^ 23 * 2 ^ ?e \<le> round_half_even (a / 2 ^ ?e) * 2 ^ ?e"
    by (intro mult_right_mono) simp_all
  then show ?thesis
    by (simp add: round_mag_def power_add)
qed

lemma round_mag_mono:
  assumes "0 \<le> a" "a \<le> b"
  shows "round_mag a \<le> round_mag b"
proof (cases "quantum_exp a = quantum_exp b")
  case True
  have "a / 2 ^ quantum_exp b \<le> b / 2 ^ quantum_exp b"
    using assms(2) by (simp add: divide_right_mono)
  then have "round_half_even (a / 2 ^ quantum_exp b) \<le> round_half_even (b / 2 ^ quantum_exp b)"
    by (rule rhe_mono)
  then show ?thesis
    unfolding round_mag_def True by (intro mult_right_mono) simp_all
next
  case False
  with quantum_exp_mono [OF assms(2)] have lt: "quantum_exp a < quantum_exp b" by simp
  then have pos: "0 < quantum_exp b" by simp
  have "round_mag a \<le> 2 ^ (24 + quantum_exp a)"
    by (rule round_mag_upper [OF assms(1)])
  also have "(2::int) ^ (24 + quantum_exp a) \<le> 2 ^ (23 + quantum_exp b)"
    using lt by (intro power_increasing) simp_all
  also have "\<dots> \<le> round_mag b"
    by (rule round_mag_lower [OF pos])
  finally show ?thesis .
qed

lemma round_mag_0: "round_mag 0 = 0"
  by (simp add: round_mag_def round_half_even_def)

lemma round_mag_nonneg: "0 \<le> a \<Longrightarrow> 0 \<le> round_mag a"
  using round_mag_mono [of 0 a] by (simp add: round_mag_0)

lemma rhe_near:
  assumes "\<bar>x - of_int k\<bar> < 1 / 2 \<or> (\<bar>x - of_int k\<bar> = 1 / 2 \<and> even k)"
  shows "round_half_even x = k"
proof (cases "of_int k \<le> x")
  case True
  with assms have "x < of_int k + 1" by linarith
  with True have f: "\<lfloor>x\<rfloor> = k" by linarith
  show ?thesis
    using assms True by (auto simp: round_half_even_def Let_def f)
next
  case False
  with assms have "of_int k - 1 \<le> x" by linarith
  with False have f: "\<lfloor>x\<rfloor> = k - 1" by linarith
  show ?thesis
    using assms False by (auto simp: round_half_even_def Let_def f)
qed

lemma quantum_exp_eq:
  assumes "e = 0 \<or> 2 ^ (23 + e) \<le> a" "0 \<le> a" "a < 2 ^ (24 + e)"
  shows "quantum_exp a = e"
proof -
  have "a < of_int (2 ^ (24 + e))" using assms(3) by simp
  then have "\<lfloor>a\<rfloor> < 2 ^ (24 + e)" by (simp only: floor_less_iff)
  then have up: "bitlen \<lfloor>a\<rfloor> \<le> 24 + int e"
    by (simp add: bitlen_le_iff_power nat_add_distrib)
  show ?thesis
  proof (cases "e = 0")
    case True
    with up show ?thesis by (simp add: quantum_exp_def)
  next
    case False
    with assms(1) have "of_int (2 ^ (23 + e)) \<le> a" by simp
    then have "2 ^ (23 + e) \<le> \<lfloor>a\<rfloor>" by (simp only: le_floor_iff)
    then have "24 + int e \<le> bitlen \<lfloor>a\<rfloor>"
      by (simp add: bitlen_ge_iff_power nat_add_distrib)
    with up show ?thesis by (simp add: quantum_exp_def)
  qed
qed

lemma rnd_nonneg:
  assumes "0 \<le> q"
  shows "rnd q = (if 2 ^ 277 \<le> round_mag (q * 2 ^ 149) then PInf
                  else Fin (of_int (round_mag (q * 2 ^ 149)) / 2 ^ 149))"
  using assms by (simp add: rnd_def Let_def abs_of_nonneg)

lemma rnd_neg:
  assumes "q < 0"
  shows "rnd q = (if 2 ^ 277 \<le> round_mag (- q * 2 ^ 149) then NInf
                  else if round_mag (- q * 2 ^ 149) = 0 then NegZero
                  else Fin (- of_int (round_mag (- q * 2 ^ 149)) / 2 ^ 149))"
  using assms by (simp add: rnd_def Let_def abs_of_neg)

lemma rnd_not_nan: "rnd q \<noteq> NaN"
  by (cases "q < 0") (simp_all add: rnd_neg rnd_nonneg)

lemma rnd_mono:
  assumes "q1 \<le> q2"
  shows "fle (rnd q1) (rnd q2)"
proof -
  consider "0 \<le> q1" | "q2 < 0" | "q1 < 0" "0 \<le> q2" using assms by linarith
  then show ?thesis
  proof cases
    case 1
    then have q2: "0 \<le> q2" using assms by simp
    have "round_mag (q1 * 2 ^ 149) \<le> round_mag (q2 * 2 ^ 149)"
      using 1 assms by (intro round_mag_mono) simp_all
    then show ?thesis
      unfolding rnd_nonneg [OF 1] rnd_nonneg [OF q2]
      by (simp add: fle_def is_nan_def fval_def divide_right_mono)
  next
    case 2
    then have q1: "q1 < 0" using assms by simp
    have "round_mag (- q2 * 2 ^ 149) \<le> round_mag (- q1 * 2 ^ 149)"
      using 2 assms by (intro round_mag_mono) simp_all
    moreover have "0 \<le> round_mag (- q2 * 2 ^ 149)"
      using 2 by (intro round_mag_nonneg) simp
    ultimately show ?thesis
      unfolding rnd_neg [OF q1] rnd_neg [OF 2]
      by (simp add: fle_def is_nan_def fval_def divide_right_mono)
  next
    case 3
    have "0 \<le> round_mag (- q1 * 2 ^ 149)" "0 \<le> round_mag (q2 * 2 ^ 149)"
      using 3 by (intro round_mag_nonneg; simp)+
    then show ?thesis
      unfolding rnd_neg [OF 3(1)] rnd_nonneg [OF 3(2)]
      by (simp add: fle_def is_nan_def fval_def)
  qed
qed

lemma rnd_grid_149:
  assumes "rnd q = Fin q'"
  shows "\<exists>k::int. q' = of_int k / 2 ^ 149"
proof (cases "q < 0")
  case True
  from assms have "q' = of_int (- round_mag (- q * 2 ^ 149)) / 2 ^ 149"
    unfolding rnd_neg [OF True] by (simp split: if_splits)
  then show ?thesis ..
next
  case False
  then have "0 \<le> q" by simp
  from assms have "q' = of_int (round_mag (q * 2 ^ 149)) / 2 ^ 149"
    unfolding rnd_nonneg [OF \<open>0 \<le> q\<close>] by (simp split: if_splits)
  then show ?thesis ..
qed

lemma round_mag_1: "round_mag 1 = 1"
proof -
  have "quantum_exp 1 = 0" by (rule quantum_exp_eq) simp_all
  then show ?thesis
    using rhe_of_int [of 1] by (simp add: round_mag_def)
qed

lemma rnd_below_zero:
  assumes "q * 2 ^ 149 \<le> - 1"
  shows "flt (rnd q) (Fin 0)"
proof -
  have neg: "q < 0"
  proof (rule ccontr)
    assume "\<not> q < 0"
    then have "0 \<le> q * 2 ^ 149" by simp
    with assms show False by simp
  qed
  have "round_mag 1 \<le> round_mag (- q * 2 ^ 149)"
    using assms by (intro round_mag_mono) simp_all
  then have "1 \<le> round_mag (- q * 2 ^ 149)"
    by (simp only: round_mag_1)
  then show ?thesis
    unfolding rnd_neg [OF neg]
    by (simp add: flt_def is_nan_def fval_def)
qed

lemma rnd_grid_24:
  assumes "rnd q = Fin q'" "1 / 2 < q'"
  shows "\<exists>k::int. q' = of_int k / 2 ^ 24"
proof -
  have pos: "0 \<le> q"
  proof (rule ccontr)
    assume "\<not> 0 \<le> q"
    then have n: "q < 0" by simp
    have "0 \<le> round_mag (- q * 2 ^ 149)" using n by (intro round_mag_nonneg) simp
    with assms show False
      unfolding rnd_neg [OF n] by (auto split: if_splits simp: field_simps)
  qed
  let ?a = "q * 2 ^ 149"
  let ?e = "quantum_exp ?a"
  have a0: "0 \<le> ?a" using pos by simp
  from assms(1) have q': "q' = of_int (round_mag ?a) / 2 ^ 149"
    unfolding rnd_nonneg [OF pos] by (auto split: if_splits)
  have big: "2 ^ 148 < round_mag ?a"
  proof -
    have "(1::rat) / 2 < of_int (round_mag ?a) / 2 ^ 149" using assms(2) q' by simp
    then have "(2::rat) ^ 148 < of_int (round_mag ?a)" by (simp add: field_simps)
    then have "of_int (2 ^ 148) < (of_int (round_mag ?a) :: rat)" by simp
    then show ?thesis by (simp only: of_int_less_iff)
  qed
  have e: "125 \<le> ?e"
  proof (rule ccontr)
    assume "\<not> 125 \<le> ?e"
    then have "24 + ?e \<le> 148" by simp
    then have "(2::int) ^ (24 + ?e) \<le> 2 ^ 148" by (intro power_increasing) simp_all
    with round_mag_upper [OF a0] big show False by simp
  qed
  then obtain d where d: "?e = 125 + d" using le_Suc_ex by blast
  define k where "k = round_half_even (?a / 2 ^ ?e) * 2 ^ d"
  have "round_mag ?a = k * 2 ^ 125"
    unfolding k_def round_mag_def by (simp only: d power_add ac_simps)
  then have "q' = of_int (k * 2 ^ 125) / 2 ^ 149"
    using q' by simp
  also have "\<dots> = of_int k / 2 ^ 24"
    by simp
  finally show ?thesis by blast
qed

lemma rnd_eval_pos:
  fixes q :: rat
  assumes "0 < k" "k * 2 ^ e < 2 ^ 277"
    and "e = 0 \<or> 2 ^ (23 + e) \<le> q * 2 ^ 149"
    and "q * 2 ^ 149 < 2 ^ (24 + e)"
    and "\<bar>q * 2 ^ 149 / 2 ^ e - of_int k\<bar> < 1 / 2
         \<or> (\<bar>q * 2 ^ 149 / 2 ^ e - of_int k\<bar> = 1 / 2 \<and> even k)"
  shows "rnd q = Fin (of_int (k * 2 ^ e) / 2 ^ 149)"
proof -
  define x where "x = q * 2 ^ 149 / 2 ^ e"
  have "1 \<le> k" using assms(1) by simp
  then have "(of_int 1 :: rat) \<le> of_int k" by (simp only: of_int_le_iff)
  then have k1: "(1 :: rat) \<le> of_int k" by simp
  have "\<bar>x - of_int k\<bar> \<le> 1 / 2" using assms(5) unfolding x_def by linarith
  with k1 have "0 < x" by linarith
  then have "0 < q * 2 ^ 149 / 2 ^ e" unfolding x_def .
  then have q: "0 \<le> q" by (simp add: zero_less_divide_iff zero_less_mult_iff)
  then have a: "0 \<le> q * 2 ^ 149" by simp
  have e: "quantum_exp (q * 2 ^ 149) = e"
    by (rule quantum_exp_eq [OF assms(3) a assms(4)])
  have m: "round_mag (q * 2 ^ 149) = k * 2 ^ e"
    unfolding round_mag_def e by (simp only: rhe_near [OF assms(5)])
  show ?thesis
    unfolding rnd_nonneg [OF q] m using assms(2) by (simp del: of_int_mult of_int_power)
qed

lemma rnd_minus: "q \<noteq> 0 \<Longrightarrow> rnd (- q) = fneg (rnd q)"
  by (cases "q < 0") (auto simp: rnd_def Let_def fneg_def)

lemma rnd_0: "rnd 0 = Fin 0"
  by (simp add: rnd_def round_mag_0)

lemma rnd_to:
  fixes q r :: rat
  assumes "0 < k" "k * 2 ^ e < 2 ^ 277"
    and "e = 0 \<or> 2 ^ (23 + e) \<le> q * 2 ^ 149"
    and "q * 2 ^ 149 < 2 ^ (24 + e)"
    and "\<bar>q * 2 ^ 149 / 2 ^ e - of_int k\<bar> < 1 / 2
         \<or> (\<bar>q * 2 ^ 149 / 2 ^ e - of_int k\<bar> = 1 / 2 \<and> even k)"
    and "r = of_int (k * 2 ^ e) / 2 ^ 149"
  shows "rnd q = Fin r"
  unfolding assms(6) by (rule rnd_eval_pos [OF assms(1-5)])

lemma rnd_to_neg:
  fixes q r :: rat
  assumes "0 < k" "k * 2 ^ e < 2 ^ 277"
    and "e = 0 \<or> 2 ^ (23 + e) \<le> - q * 2 ^ 149"
    and "- q * 2 ^ 149 < 2 ^ (24 + e)"
    and "\<bar>- q * 2 ^ 149 / 2 ^ e - of_int k\<bar> < 1 / 2
         \<or> (\<bar>- q * 2 ^ 149 / 2 ^ e - of_int k\<bar> = 1 / 2 \<and> even k)"
    and "r = - (of_int (k * 2 ^ e) / 2 ^ 149)"
  shows "rnd q = Fin r"
proof -
  have p: "rnd (- q) = Fin (of_int (k * 2 ^ e) / 2 ^ 149)"
    by (rule rnd_eval_pos [OF assms(1-5)])
  have k: "(of_int (k * 2 ^ e) / 2 ^ 149 :: rat) \<noteq> 0"
    using assms(1) by simp
  have "q \<noteq> 0"
  proof
    assume "q = 0"
    with p k show False by (simp add: rnd_0)
  qed
  then have "rnd q = fneg (rnd (- q))"
    using rnd_minus [of "- q"] by simp
  then show ?thesis
    unfolding p assms(6) using k by (simp add: fneg_def)
qed

lemma fadd_to: "rnd (a + b) = Fin r \<Longrightarrow> fadd (Fin a) (Fin b) = Fin r"
  by (simp add: fadd_def is_nan_def is_inf_def fval_def)

lemma fsub_Fin: "fsub (Fin a) (Fin b) = rnd (a - b)"
  by (cases "b = 0") (simp_all add: fsub_def fneg_def fadd_def is_nan_def is_inf_def fval_def)

lemma fsub_to: "rnd (a - b) = Fin r \<Longrightarrow> fsub (Fin a) (Fin b) = Fin r"
  by (simp add: fsub_Fin)

lemma fmul_to: "rnd (a * b) = Fin r \<Longrightarrow> a \<noteq> 0 \<Longrightarrow> b \<noteq> 0 \<Longrightarrow> fmul (Fin a) (Fin b) = Fin r"
  by (simp add: fmul_def is_nan_def is_inf_def is_zero_def fval_def)

lemma fdiv_to: "rnd (a / b) = Fin r \<Longrightarrow> a \<noteq> 0 \<Longrightarrow> b \<noteq> 0 \<Longrightarrow> fdiv (Fin a) (Fin b) = Fin r"
  by (simp add: fdiv_def is_nan_def is_inf_def is_zero_def fval_def)

subsection \<open>The rounding error\<close>

lemma quantum_exp_le:
  assumes "a < 2 ^ (24 + e)"
  shows "quantum_exp a \<le> e"
proof -
  have "a < of_int (2 ^ (24 + e))" using assms by simp
  then have "\<lfloor>a\<rfloor> < 2 ^ (24 + e)" by (simp only: floor_less_iff)
  then have "bitlen \<lfloor>a\<rfloor> \<le> 24 + int e"
    by (simp add: bitlen_le_iff_power nat_add_distrib)
  then show ?thesis by (simp add: quantum_exp_def)
qed

lemma round_mag_error:
  "\<bar>of_int (round_mag a) - a\<bar> \<le> 2 ^ quantum_exp a / 2"
proof -
  let ?e = "quantum_exp a"
  have "\<bar>of_int (round_half_even (a / 2 ^ ?e)) - a / 2 ^ ?e\<bar> * 2 ^ ?e \<le> 1 / 2 * 2 ^ ?e"
    by (intro mult_right_mono rhe_error) simp
  moreover have "\<bar>of_int (round_half_even (a / 2 ^ ?e)) - a / 2 ^ ?e\<bar> * 2 ^ ?e
      = \<bar>(of_int (round_half_even (a / 2 ^ ?e)) - a / 2 ^ ?e) * 2 ^ ?e\<bar>"
    by (simp add: abs_mult)
  moreover have "(of_int (round_half_even (a / 2 ^ ?e)) - a / 2 ^ ?e) * 2 ^ ?e
      = of_int (round_mag a) - a"
    by (simp add: round_mag_def algebra_simps)
  ultimately show ?thesis by simp
qed

lemma round_mag_pow: "round_mag (2 ^ 149) = 2 ^ 149"
proof -
  have "quantum_exp (2 ^ 149) = 126" by (rule quantum_exp_eq) simp_all
  then show ?thesis
    using rhe_of_int [of "2 ^ 23"] by (simp add: round_mag_def)
qed

lemma abs_scale:
  fixes c :: rat
  assumes "0 < c"
  shows "\<bar>x - y * c\<bar> / c = \<bar>x / c - y\<bar>"
proof -
  have "x - y * c = (x / c - y) * c"
    using assms by (simp add: field_simps)
  then have "\<bar>x - y * c\<bar> = \<bar>x / c - y\<bar> * \<bar>c\<bar>"
    by (simp only: abs_mult)
  then have "\<bar>x - y * c\<bar> = \<bar>x / c - y\<bar> * c"
    using assms by (simp only: abs_of_pos)
  then show ?thesis
    using assms by simp
qed

lemma rnd_error_unit:
  assumes "rnd q = Fin q'" "0 \<le> q'" "q' < 1"
  shows "\<bar>q' - q\<bar> \<le> 1 / 2 ^ 25"
proof -
  have pos: "0 \<le> q"
  proof (rule ccontr)
    assume "\<not> 0 \<le> q"
    then have n: "q < 0" by simp
    have "0 \<le> round_mag (- q * 2 ^ 149)" using n by (intro round_mag_nonneg) simp
    with assms(1,2) show False
      unfolding rnd_neg [OF n] by (auto split: if_splits simp: field_simps)
  qed
  let ?a = "q * 2 ^ 149"
  have a0: "0 \<le> ?a" using pos by simp
  from assms(1) have q': "q' = of_int (round_mag ?a) / 2 ^ 149"
    unfolding rnd_nonneg [OF pos] by (auto split: if_splits)
  have small: "round_mag ?a < 2 ^ 149"
  proof -
    have "of_int (round_mag ?a) / 2 ^ 149 < (1::rat)" using assms(3) q' by simp
    then have "(of_int (round_mag ?a) :: rat) < of_int (2 ^ 149)" by (simp add: field_simps)
    then show ?thesis by (simp only: of_int_less_iff)
  qed
  have a_small: "?a < 2 ^ 149"
  proof (rule ccontr)
    assume "\<not> ?a < 2 ^ 149"
    then have "round_mag (2 ^ 149) \<le> round_mag ?a"
      by (intro round_mag_mono) simp_all
    with small show False by (simp only: round_mag_pow)
  qed
  have "quantum_exp ?a \<le> 125"
    by (rule quantum_exp_le) (use a_small in simp)
  then have "(2::rat) ^ quantum_exp ?a \<le> 2 ^ 125"
    by (intro power_increasing) simp_all
  with round_mag_error [of ?a] have "\<bar>of_int (round_mag ?a) - ?a\<bar> \<le> 2 ^ 125 / 2"
    by simp
  then have "\<bar>of_int (round_mag ?a) - ?a\<bar> / 2 ^ 149 \<le> (2 ^ 125 / 2) / 2 ^ 149"
    by (intro divide_right_mono) simp_all
  moreover have "\<bar>of_int (round_mag ?a) - ?a\<bar> / 2 ^ 149 = \<bar>q' - q\<bar>"
    unfolding q' by (rule abs_scale) simp
  ultimately show ?thesis by simp
qed

subsection \<open>Values that rounding leaves alone, and operations on values that are not negative\<close>

lemma round_mag_big: "round_mag (2 ^ 249) = 2 ^ 249"
proof -
  have "quantum_exp (2 ^ 249) = 226" by (rule quantum_exp_eq) simp_all
  then show ?thesis
    using rhe_of_int [of "2 ^ 23"] by (simp add: round_mag_def)
qed

lemma rnd_finite:
  assumes "0 \<le> q" "q \<le> 2 ^ 100"
  shows "rnd q = Fin (fval (rnd q))" and "0 \<le> fval (rnd q)"
proof -
  have "q * 2 ^ 149 \<le> 2 ^ 100 * 2 ^ 149"
    using assms(2) by (rule mult_right_mono) simp
  then have "q * 2 ^ 149 \<le> 2 ^ 249" by simp
  moreover have "0 \<le> q * 2 ^ 149" using assms(1) by simp
  ultimately have "round_mag (q * 2 ^ 149) \<le> round_mag (2 ^ 249)"
    by (intro round_mag_mono)
  also have "\<dots> = 2 ^ 249" by (rule round_mag_big)
  also have "\<dots> < (2 :: int) ^ 277" by (intro power_strict_increasing) simp_all
  finally have small: "\<not> 2 ^ 277 \<le> round_mag (q * 2 ^ 149)" by (simp only: not_le)
  then show "rnd q = Fin (fval (rnd q))"
    using assms(1) by (simp add: rnd_nonneg fval_def)
  have "0 \<le> round_mag (q * 2 ^ 149)"
    using \<open>0 \<le> q * 2 ^ 149\<close> by (rule round_mag_nonneg)
  then show "0 \<le> fval (rnd q)"
    using assms(1) small by (simp add: rnd_nonneg fval_def)
qed

lemma fval_rnd_mono:
  assumes "0 \<le> q1" "q1 \<le> q2" "q2 \<le> 2 ^ 100"
  shows "fval (rnd q1) \<le> fval (rnd q2)"
proof -
  have a: "rnd q1 = Fin (fval (rnd q1))" using assms by (intro rnd_finite) auto
  have b: "rnd q2 = Fin (fval (rnd q2))" using assms by (intro rnd_finite) auto
  have "fle (rnd q1) (rnd q2)" using assms(2) by (rule rnd_mono)
  then have "fle (Fin (fval (rnd q1))) (Fin (fval (rnd q2)))" using a b by simp
  then show ?thesis by (simp add: fle_def is_nan_def fval_def)
qed

lemma round_mag_dyadic:
  assumes "0 \<le> n" "n < 2 ^ 24"
  shows "round_mag (of_int n * 2 ^ j) = n * 2 ^ j"
proof -
  define a :: rat where "a = of_int n * 2 ^ j"
  define e where "e = quantum_exp a"
  have "of_int n < (2 ^ 24 :: rat)" using assms(2) by (simp flip: of_int_less_iff)
  then have "a < 2 ^ 24 * 2 ^ j" unfolding a_def by (intro mult_strict_right_mono) simp_all
  then have "a < 2 ^ (24 + j)" by (simp add: power_add)
  then have le: "e \<le> j" unfolding e_def by (rule quantum_exp_le)
  then have "(2 ^ j :: rat) = 2 ^ (j - e) * 2 ^ e" by (simp flip: power_add)
  then have "a / 2 ^ e = of_int (n * 2 ^ (j - e))" by (simp add: a_def)
  then have "round_half_even (a / 2 ^ e) = n * 2 ^ (j - e)" by (simp only: rhe_of_int)
  then have "round_mag a = n * 2 ^ (j - e) * 2 ^ e" by (simp add: round_mag_def e_def)
  also have "\<dots> = n * 2 ^ j" using le by (simp flip: power_add)
  finally show ?thesis by (simp add: a_def)
qed

lemma rnd_dyadic:
  assumes "0 \<le> n" "n < 2 ^ 24" "j \<le> 149"
  shows "rnd (of_int n / 2 ^ j) = Fin (of_int n / 2 ^ j)"
proof -
  define q :: rat where "q = of_int n / 2 ^ j"
  have q0: "0 \<le> q" using assms(1) by (simp add: q_def)
  have split: "(2 ^ 149 :: rat) = 2 ^ j * 2 ^ (149 - j)"
    using assms(3) by (simp only: power_add [symmetric] le_add_diff_inverse)
  have "q * 2 ^ 149 = of_int n / 2 ^ j * (2 ^ j * 2 ^ (149 - j))"
    by (simp only: q_def split)
  also have "\<dots> = of_int n * 2 ^ (149 - j)" by simp
  finally have "q * 2 ^ 149 = of_int n * 2 ^ (149 - j)" .
  then have rm: "round_mag (q * 2 ^ 149) = n * 2 ^ (149 - j)"
    using assms(1,2) by (simp only: round_mag_dyadic)
  have "n * 2 ^ (149 - j) < 2 ^ 24 * 2 ^ (149 - j)"
    using assms(2) by (intro mult_strict_right_mono) simp_all
  also have "\<dots> = (2 :: int) ^ (24 + (149 - j))" by (simp add: power_add)
  also have "\<dots> \<le> 2 ^ 277" by (intro power_increasing) simp_all
  finally have small: "\<not> 2 ^ 277 \<le> n * 2 ^ (149 - j)" by simp
  have "of_int (n * 2 ^ (149 - j)) / 2 ^ 149 = (of_int n * 2 ^ (149 - j)) / (2 ^ j * 2 ^ (149 - j) :: rat)"
    by (simp only: split of_int_mult of_int_power of_int_numeral)
  also have "\<dots> = q" by (simp add: q_def)
  finally have "rnd q = Fin q" using q0 rm small by (simp add: rnd_nonneg)
  then show ?thesis by (simp add: q_def)
qed

lemma rnd_int:
  assumes "0 \<le> n" "n \<le> 2 ^ 24"
  shows "rnd (of_int n) = Fin (of_int n)"
proof (cases "n = 2 ^ 24")
  case True
  have "rnd 16777216 = Fin 16777216"
    by (rule rnd_to [where k = 8388608 and e = 150]) simp_all
  then show ?thesis using True by simp
next
  case False
  then have "n < 2 ^ 24" using assms(2) by simp
  then show ?thesis using rnd_dyadic [of n 0] assms(1) by simp
qed

lemma rnd_1: "rnd 1 = Fin 1"
  using rnd_int [of 1] by simp

lemma rnd_2: "rnd 2 = Fin 2"
  using rnd_int [of 2] by simp

lemma rnd_100: "rnd 100 = Fin 100"
  using rnd_int [of 100] by simp

lemma float_of_int_exact: "0 \<le> n \<Longrightarrow> n \<le> 2 ^ 24 \<Longrightarrow> float_of_int n = Fin (of_int n)"
  by (simp add: float_of_int_def rnd_int)

lemma fadd_Fin: "fadd (Fin a) (Fin b) = rnd (a + b)"
  by (simp add: fadd_def is_nan_def is_inf_def fval_def)

lemma fmul_nonneg: "0 \<le> a \<Longrightarrow> 0 \<le> b \<Longrightarrow> fmul (Fin a) (Fin b) = rnd (a * b)"
  by (auto simp: fmul_def is_nan_def is_inf_def is_zero_def fsign_def fval_def rnd_0)

lemma fdiv_nonneg: "0 \<le> a \<Longrightarrow> 0 < b \<Longrightarrow> fdiv (Fin a) (Fin b) = rnd (a / b)"
  by (auto simp: fdiv_def is_nan_def is_inf_def is_zero_def fsign_def fval_def rnd_0)

lemma flt_Fin: "flt (Fin a) (Fin b) \<longleftrightarrow> a < b"
  by (simp add: flt_def is_nan_def fval_def)

lemma fle_Fin: "fle (Fin a) (Fin b) \<longleftrightarrow> a \<le> b"
  by (simp add: fle_def is_nan_def fval_def)


lemma rnd_finite_val:
  assumes "0 \<le> q" "q \<le> 2 ^ 100"
  shows "fval (rnd q) = of_int (round_mag (q * 2 ^ 149)) / 2 ^ 149"
proof -
  have "q * 2 ^ 149 \<le> 2 ^ 100 * 2 ^ 149"
    using assms(2) by (rule mult_right_mono) simp
  then have "q * 2 ^ 149 \<le> 2 ^ 249" by simp
  moreover have "0 \<le> q * 2 ^ 149" using assms(1) by simp
  ultimately have "round_mag (q * 2 ^ 149) \<le> round_mag (2 ^ 249)"
    by (intro round_mag_mono)
  also have "\<dots> = 2 ^ 249" by (rule round_mag_big)
  also have "\<dots> < (2 :: int) ^ 277" by (intro power_strict_increasing) simp_all
  finally have "\<not> 2 ^ 277 \<le> round_mag (q * 2 ^ 149)" by (simp only: not_le)
  then show ?thesis using assms(1) by (simp add: rnd_nonneg fval_def)
qed

lemma rnd_error_rel:
  assumes "0 \<le> q" "q \<le> 2 ^ 100"
  shows "\<bar>fval (rnd q) - q\<bar> \<le> q / 2 ^ 24 + 1 / 2 ^ 150"
proof -
  define a where "a = q * 2 ^ 149"
  define e where "e = quantum_exp a"
  have a0: "0 \<le> a" using assms(1) by (simp add: a_def)
  have val: "fval (rnd q) = of_int (round_mag a) / 2 ^ 149"
    unfolding a_def using assms by (rule rnd_finite_val)
  have "(2 :: rat) ^ e / 2 \<le> a / 2 ^ 24 + 1 / 2"
  proof (cases "e = 0")
    case True
    then show ?thesis using a0 by simp
  next
    case False
    then have "2 ^ (23 + e) \<le> a" unfolding e_def by (intro above_quantum) simp
    then have "2 ^ 23 * 2 ^ e \<le> a" by (simp only: power_add)
    then show ?thesis by simp
  qed
  moreover have "\<bar>of_int (round_mag a) - a\<bar> \<le> 2 ^ e / 2"
    unfolding e_def by (rule round_mag_error)
  ultimately have "\<bar>of_int (round_mag a) - q * 2 ^ 149\<bar> \<le> a / 2 ^ 24 + 1 / 2"
    by (simp add: a_def)
  then have "\<bar>of_int (round_mag a) - q * 2 ^ 149\<bar> / 2 ^ 149 \<le> (a / 2 ^ 24 + 1 / 2) / 2 ^ 149"
    by (rule divide_right_mono) simp
  moreover have "\<bar>of_int (round_mag a) - q * 2 ^ 149\<bar> / 2 ^ 149
      = \<bar>of_int (round_mag a) / 2 ^ 149 - q\<bar>"
    by (rule abs_scale) simp
  moreover have "(a / 2 ^ 24 + 1 / 2) / 2 ^ 149 = q / 2 ^ 24 + 1 / 2 ^ 150"
    by (simp add: a_def add_divide_distrib)
  ultimately show ?thesis by (simp only: val)
qed

section \<open>Proofs: the background fill\<close>

declare fill_row.simps [simp del] fill_rows.simps [simp del]

subsection \<open>The runs of the two loops\<close>

lemma fill_row_run:
  assumes "\<forall>x'. x \<le> x' \<and> x' < width \<longrightarrow> pixel_index y stride x' = Some (y * stride + x')"
  shows "\<exists>fb'. fill_row x y width stride c fb = Some fb'
           \<and> written fb' = rev (row_cells x y width stride) @ written fb
           \<and> (\<forall>i. bits fb' i = (if i \<in> set (row_cells x y width stride) then c else bits fb i))"
  using assms
proof (induction x y width stride c fb rule: fill_row.induct)
  case (1 x y width stride c fb)
  show ?case
  proof (cases "x < width")
    case False
    then show ?thesis
      by (simp add: fill_row.simps [of x] row_cells_def)
  next
    case True
    have idx: "pixel_index y stride x = Some (y * stride + x)"
      using "1.prems" True by simp
    have cells: "row_cells x y width stride = (y * stride + x) # row_cells (x + 1) y width stride"
      using True by (simp add: row_cells_def upto.simps [of x])
    from "1.IH" [OF True idx] "1.prems"
    obtain fb' where run: "fill_row (x + 1) y width stride c (store_pixel fb (y * stride + x) c) = Some fb'"
      and w: "written fb' = rev (row_cells (x + 1) y width stride) @ written (store_pixel fb (y * stride + x) c)"
      and b: "\<forall>i. bits fb' i = (if i \<in> set (row_cells (x + 1) y width stride) then c
                                 else bits (store_pixel fb (y * stride + x) c) i)"
      by auto
    have "fill_row x y width stride c fb = Some fb'"
      using True idx run by (simp add: fill_row.simps [of x])
    moreover have "written fb' = rev (row_cells x y width stride) @ written fb"
      using w cells by (simp add: store_pixel_def)
    moreover have "\<forall>i. bits fb' i = (if i \<in> set (row_cells x y width stride) then c else bits fb i)"
      using b cells by (simp add: store_pixel_def)
    ultimately show ?thesis by blast
  qed
qed

lemma fill_rows_run:
  assumes "\<forall>y' x'. y \<le> y' \<and> y' < height \<and> 0 \<le> x' \<and> x' < width
             \<longrightarrow> pixel_index y' stride x' = Some (y' * stride + x')"
  shows "\<exists>fb'. fill_rows y height width stride c fb = Some fb'
           \<and> written fb' = rev (rows_cells y height width stride) @ written fb
           \<and> (\<forall>i. bits fb' i = (if i \<in> set (rows_cells y height width stride) then c else bits fb i))"
  using assms
proof (induction y height width stride c fb rule: fill_rows.induct)
  case (1 y height width stride c fb)
  show ?case
  proof (cases "y < height")
    case False
    then show ?thesis
      by (simp add: fill_rows.simps [of y] rows_cells_def)
  next
    case True
    have "\<forall>x'. 0 \<le> x' \<and> x' < width \<longrightarrow> pixel_index y stride x' = Some (y * stride + x')"
      using "1.prems" True by simp
    from fill_row_run [OF this, of c fb]
    obtain fb1 where r1: "fill_row 0 y width stride c fb = Some fb1"
      and w1: "written fb1 = rev (row_cells 0 y width stride) @ written fb"
      and b1: "\<forall>i. bits fb1 i = (if i \<in> set (row_cells 0 y width stride) then c else bits fb i)"
      by blast
    have cells: "rows_cells y height width stride
                   = row_cells 0 y width stride @ rows_cells (y + 1) height width stride"
      using True by (simp add: rows_cells_def upto.simps [of y])
    from "1.IH" [OF True r1] "1.prems"
    obtain fb' where run: "fill_rows (y + 1) height width stride c fb1 = Some fb'"
      and w: "written fb' = rev (rows_cells (y + 1) height width stride) @ written fb1"
      and b: "\<forall>i. bits fb' i = (if i \<in> set (rows_cells (y + 1) height width stride) then c else bits fb1 i)"
      by auto
    have "fill_rows y height width stride c fb = Some fb'"
      using True r1 run by (simp add: fill_rows.simps [of y])
    moreover have "written fb' = rev (rows_cells y height width stride) @ written fb"
      using w w1 cells by simp
    moreover have "\<forall>i. bits fb' i = (if i \<in> set (rows_cells y height width stride) then c else bits fb i)"
      using b b1 cells by simp
    ultimately show ?thesis by blast
  qed
qed

subsection \<open>The cells the fill stores to\<close>

lemma cell_unique:
  fixes s :: int
  assumes "0 \<le> x" "x < s" "0 \<le> x'" "x' < s" "y * s + x = y' * s + x'"
  shows "y = y' \<and> x = x'"
proof -
  have d: "(y * s + x) div s = y"
    using assms(1,2) by simp
  have d': "(y' * s + x') div s = y'"
    using assms(3,4) by simp
  have "y = y'" by (metis d d' assms(5))
  then show ?thesis using assms(5) by simp
qed

lemma set_row_cells:
  "set (row_cells x y width stride) = {y * stride + x' | x'. x \<le> x' \<and> x' < width}"
proof -
  have "set (row_cells x y width stride) = (\<lambda>x'. y * stride + x') ` {x..width - 1}"
    by (simp only: row_cells_def set_map set_upto)
  also have "{x..width - 1} = {x'. x \<le> x' \<and> x' < width}"
    by auto
  also have "(\<lambda>x'. y * stride + x') ` {x'. x \<le> x' \<and> x' < width}
               = {y * stride + x' | x'. x \<le> x' \<and> x' < width}"
    by (rule image_Collect)
  finally show ?thesis .
qed

lemma set_rows_cells:
  "set (rows_cells y height width stride)
     = {y' * stride + x' | x' y'. 0 \<le> x' \<and> x' < width \<and> y \<le> y' \<and> y' < height}"
proof -
  have "set (rows_cells y height width stride)
          = (\<Union>y' \<in> {y..height - 1}. {y' * stride + x' | x'. 0 \<le> x' \<and> x' < width})"
    by (simp only: rows_cells_def set_concat set_map set_upto set_row_cells image_image)
  also have "\<dots> = {y' * stride + x' | x' y'. 0 \<le> x' \<and> x' < width \<and> y \<le> y' \<and> y' < height}"
    by (rule set_eqI) (simp only: UN_iff mem_Collect_eq atLeastAtMost_iff Bex_def, force)
  finally show ?thesis .
qed

lemma length_rows_cells:
  assumes "0 \<le> width" "0 \<le> height"
  shows "length (rows_cells 0 height width stride) = nat (height * width)"
proof -
  have "length (rows_cells 0 height width stride)
          = sum_list (map (\<lambda>y'. nat width) [0..height - 1])"
    using assms by (simp add: rows_cells_def row_cells_def length_concat comp_def)
  also have "\<dots> = nat height * nat width"
    using assms by (simp add: sum_list_triv)
  finally show ?thesis
    using assms by (simp add: nat_mult_distrib)
qed

lemma distinct_row_cells: "distinct (row_cells x y width stride)"
  by (simp add: row_cells_def distinct_map inj_on_def)

lemma distinct_rows_cells:
  assumes "0 \<le> width" "width \<le> stride" "0 \<le> y"
  shows "distinct (rows_cells y height width stride)"
  using assms(3)
proof (induction "nat (height - y)" arbitrary: y)
  case 0
  then show ?case by (simp add: rows_cells_def)
next
  case (Suc n)
  then have lt: "y < height" by simp
  have cells: "rows_cells y height width stride
                 = row_cells 0 y width stride @ rows_cells (y + 1) height width stride"
    using lt by (simp add: rows_cells_def upto.simps [of y])
  have rest: "distinct (rows_cells (y + 1) height width stride)"
    using Suc by simp
  have "set (row_cells 0 y width stride) \<inter> set (rows_cells (y + 1) height width stride) = {}"
  proof (rule ccontr)
    assume "\<not> ?thesis"
    then obtain x1 x2 y2 where a: "0 \<le> x1" "x1 < width" "0 \<le> x2" "x2 < width" "y + 1 \<le> y2"
      and e: "y * stride + x1 = y2 * stride + x2"
      by (auto simp: set_row_cells set_rows_cells)
    have "y = y2 \<and> x1 = x2"
      by (rule cell_unique [OF _ _ _ _ e]) (use a assms in simp_all)
    then show False using a by simp
  qed
  then show ?case
    using cells rest distinct_row_cells by simp
qed

lemma cell_in_int_range:
  fixes stride :: int
  assumes "0 \<le> y" "y < height" "0 \<le> x" "x < width" "width \<le> stride"
  shows "0 \<le> y * stride" "y * stride \<le> y * stride + x" "y * stride + x < height * stride"
proof -
  have s: "0 \<le> stride" using assms by linarith
  show "0 \<le> y * stride" using assms s by simp
  show "y * stride \<le> y * stride + x" using assms by simp
  have "(y + 1) * stride \<le> height * stride"
    using assms s by (intro mult_right_mono) simp_all
  then show "y * stride + x < height * stride"
    using assms by (simp add: algebra_simps)
qed

lemma pixel_index_defined:
  assumes "0 \<le> y" "y < height" "0 \<le> x" "x < width" "width \<le> stride"
    and "height * stride \<le> 2147483647"
  shows "pixel_index y stride x = Some (y * stride + x)"
  using cell_in_int_range [OF assms(1-5)] assms(6)
  by (simp add: pixel_index_def int_ok_def)

text \<open>
  C1. For every buffer with \<open>0 \<le> width \<le> stride\<close> (and a height that is not negative,
  whose \<open>height * stride\<close> cells are addressable by a C \<^verbatim>\<open>int\<close>), the background fill
  runs to its end and stores to exactly \<open>height * width\<close> cells, no cell twice: the cells
  \<open>y * stride + x\<close> with \<open>0 \<le> x < width\<close> and \<open>0 \<le> y < height\<close>. Every index it stores to
  is below \<open>height * stride\<close>, no index \<open>y * stride + p\<close> with \<open>p\<close> in the padding
  \<open>[width, stride)\<close> of a row is stored to, and every other cell keeps its contents.
\<close>

theorem C1_background_fill:
  assumes "0 \<le> width" "width \<le> stride" "0 \<le> height" "height * stride \<le> 2147483647"
  shows "\<exists>fb' ws. fill_background height width stride c fb = Some fb'
           \<and> written fb' = ws @ written fb
           \<and> length ws = nat (height * width)
           \<and> distinct ws
           \<and> set ws = {y * stride + x | x y. 0 \<le> x \<and> x < width \<and> 0 \<le> y \<and> y < height}
           \<and> (\<forall>i \<in> set ws. 0 \<le> i \<and> i < height * stride)
           \<and> (\<forall>y p. width \<le> p \<and> p < stride \<longrightarrow> y * stride + p \<notin> set ws)
           \<and> (\<forall>i. bits fb' i = (if i \<in> set ws then c else bits fb i))"
proof -
  let ?ws = "rows_cells 0 height width stride"
  have "\<forall>y' x'. 0 \<le> y' \<and> y' < height \<and> 0 \<le> x' \<and> x' < width
          \<longrightarrow> pixel_index y' stride x' = Some (y' * stride + x')"
    using pixel_index_defined assms by blast
  from fill_rows_run [OF this, of c fb]
  obtain fb' where run: "fill_background height width stride c fb = Some fb'"
    and w: "written fb' = rev ?ws @ written fb"
    and b: "\<forall>i. bits fb' i = (if i \<in> set ?ws then c else bits fb i)"
    unfolding fill_background_def by blast
  have len: "length (rev ?ws) = nat (height * width)"
    using length_rows_cells assms by simp
  have dist: "distinct (rev ?ws)"
    using distinct_rows_cells [OF assms(1,2), of 0 height] by simp
  have st: "set (rev ?ws) = {y * stride + x | x y. 0 \<le> x \<and> x < width \<and> 0 \<le> y \<and> y < height}"
    by (simp add: set_rows_cells)
  have bound: "\<forall>i \<in> set (rev ?ws). 0 \<le> i \<and> i < height * stride"
  proof
    fix i assume "i \<in> set (rev ?ws)"
    then obtain x y where xy: "0 \<le> x" "x < width" "0 \<le> y" "y < height" and i: "i = y * stride + x"
      unfolding st by blast
    from cell_in_int_range [OF xy(3,4,1,2) assms(2)] i
    show "0 \<le> i \<and> i < height * stride" by simp
  qed
  have pad: "\<forall>y p. width \<le> p \<and> p < stride \<longrightarrow> y * stride + p \<notin> set (rev ?ws)"
  proof (intro allI impI notI)
    fix y p assume p: "width \<le> p \<and> p < stride" and "y * stride + p \<in> set (rev ?ws)"
    then obtain x' y' where xy: "0 \<le> x'" "x' < width" and e: "y * stride + p = y' * stride + x'"
      unfolding st by blast
    have "y = y' \<and> p = x'"
      by (rule cell_unique [OF _ _ _ _ e]) (use p xy assms in simp_all)
    then show False using p xy by simp
  qed
  have bits: "\<forall>i. bits fb' i = (if i \<in> set (rev ?ws) then c else bits fb i)"
    using b by simp
  show ?thesis
    using run w len dist st bound pad bits by blast
qed

theorem C1_background_fill_witness:
  "(0::int) \<le> 2 \<and> (2::int) \<le> 3 \<and> (2::int) * 3 \<le> 2147483647
     \<and> (\<exists>fb' ws. fill_background 2 2 3 (bgColor True) \<lparr>bits = (\<lambda>i. 0), written = []\<rparr> = Some fb'
           \<and> written fb' = ws \<and> length ws = 4 \<and> distinct ws
           \<and> (\<forall>i \<in> set ws. 0 \<le> i \<and> i < 6)
           \<and> (3::int) * 1 + 2 \<notin> set ws)"
proof -
  have h: "(0::int) \<le> 2" "(2::int) \<le> 3" "(2::int) * 3 \<le> 2147483647"
    by simp_all
  from C1_background_fill [OF h(1) h(2) h(1) h(3), of "bgColor True" "\<lparr>bits = (\<lambda>i. 0), written = []\<rparr>"]
  obtain fb' ws where r: "fill_background 2 2 3 (bgColor True) \<lparr>bits = (\<lambda>i. 0), written = []\<rparr> = Some fb'"
    "written fb' = ws @ written \<lparr>bits = (\<lambda>i. 0), written = []\<rparr>"
    "length ws = nat (2 * 2)" "distinct ws"
    "\<forall>i \<in> set ws. 0 \<le> i \<and> i < 2 * 3"
    "\<forall>y p. (2::int) \<le> p \<and> p < 3 \<longrightarrow> y * 3 + p \<notin> set ws"
    by blast
  from r(6) [rule_format, of 2 1] have "(1::int) * 3 + 2 \<notin> set ws" by simp
  then show ?thesis using h r(1-5) by simp
qed

section \<open>Proofs: the bounce of the GPU renderer's circle\<close>

lemma radius_value: "g_circleRadius = Fin (13421773 / 134217728)"
  unfolding g_circleRadius_def by (rule rnd_to [where k = 13421773 and e = 122]) simp_all

lemma upper_value_eval: "fsub (Fin 1) (Fin (13421773 / 134217728)) = Fin (7549747 / 8388608)"
  by (rule fsub_to, rule rnd_to [where k = 15099494 and e = 125]) simp_all

lemma upper_value: "fsub (Fin 1) g_circleRadius = Fin (7549747 / 8388608)"
  unfolding radius_value by (rule upper_value_eval)

lemma clamp_pos_range:
  "fle g_circleRadius (clamp_pos p) \<and> fle (clamp_pos p) (fsub (Fin 1) g_circleRadius)"
  unfolding clamp_pos_def radius_value upper_value_eval
  by (cases p) (simp_all add: std_max_def std_min_def flt_def fle_def is_nan_def fval_def)

lemma fsub_radius: "fsub (Fin q) g_circleRadius = rnd (q - 13421773 / 134217728)"
  by (simp add: fsub_Fin radius_value)

lemma fadd_radius: "fadd (Fin q) g_circleRadius = rnd (q + 13421773 / 134217728)"
  by (simp add: fadd_def radius_value is_nan_def is_inf_def fval_def)

lemma bounces_Fin:
  "bounces (Fin q) \<longleftrightarrow>
     flt (rnd (q - 13421773 / 134217728)) (Fin 0) \<or> flt (Fin 1) (rnd (q + 13421773 / 134217728))"
  by (simp add: bounces_def fgt_def fsub_radius fadd_radius)

lemma witness_x_step: "fadd (Fin (7549747 / 8388608)) (Fin (5368709 / 536870912)) = Fin (7633633 / 8388608)"
  by (rule fadd_to, rule rnd_to [where k = 15267266 and e = 125]) simp_all

lemma witness_y_step: "fadd (Fin (1 / 2)) (Fin (16106127 / 1073741824)) = Fin (4320133 / 8388608)"
  by (rule fadd_to, rule rnd_to [where k = 8640266 and e = 125]) simp_all

lemma witness_x_bounces: "bounces (Fin (7633633 / 8388608))"
proof -
  have a: "rnd (108716355 / 134217728) = Fin (1698693 / 2097152)"
    by (rule rnd_to [where k = 13589544 and e = 125]) simp_all
  have b: "rnd (135559901 / 134217728) = Fin (4236247 / 4194304)"
    by (rule rnd_to [where k = 8472494 and e = 126]) simp_all
  show ?thesis
    by (simp add: bounces_Fin a b flt_def is_nan_def fval_def)
qed

lemma witness_y_no_bounce: "\<not> bounces (Fin (4320133 / 8388608))"
proof -
  have a: "rnd (55700355 / 134217728) = Fin (13925089 / 33554432)"
    by (rule rnd_to [where k = 13925089 and e = 124]) simp_all
  have b: "rnd (82543901 / 134217728) = Fin (2579497 / 4194304)"
    by (rule rnd_to [where k = 10317988 and e = 125]) simp_all
  show ?thesis
    by (simp add: bounces_Fin a b flt_def is_nan_def fval_def)
qed

lemma bounces_not_nan: "bounces p \<Longrightarrow> \<not> is_nan p"
  by (cases p) (simp_all add: bounces_def fgt_def fsub_def fadd_def flt_def is_nan_def)

lemma clamp_pos_nearest:
  assumes "\<not> is_nan p"
  shows "clamp_pos p = nearest_valid p"
  using assms unfolding clamp_pos_def nearest_valid_def radius_value upper_value_eval
  by (cases p) (auto simp: std_max_def std_min_def fgt_def flt_def is_nan_def fval_def)

subsection \<open>Positions without a bounce\<close>

lemma fadd_cases:
  "fadd a b = NaN \<or> fadd a b = PInf \<or> fadd a b = NInf \<or> fadd a b = NegZero \<or> (\<exists>q. fadd a b = rnd q)"
  by (auto simp: fadd_def is_inf_def)

lemma rnd_minus_radius: "rnd (- (13421773 / 134217728)) = Fin (- (13421773 / 134217728))"
  by (rule rnd_to_neg [where k = 13421773 and e = 122]) simp_all

lemma bounces_special: "bounces PInf" "bounces NInf" "bounces NegZero"
  by (simp_all add: bounces_def fgt_def fsub_def fadd_def fneg_def radius_value is_nan_def
      is_inf_def flt_def fval_def rnd_minus_radius)

lemma rnd_above_one: "rnd (134217741 / 134217728) = Fin (8388609 / 8388608)"
  by (rule rnd_to [where k = 8388609 and e = 126]) simp_all

lemma no_bounce_lower:
  assumes "\<not> bounces (Fin q)" "q = of_int k / 2 ^ 149"
  shows "13421773 / 134217728 \<le> q"
proof (rule ccontr)
  assume "\<not> 13421773 / 134217728 \<le> q"
  then have "of_int k / 2 ^ 149 < (13421773 / 134217728 :: rat)"
    using assms(2) by simp
  then have "(of_int k :: rat) < of_int (13421773 * 2 ^ 122)"
    by (simp add: field_simps)
  then have "k < 13421773 * 2 ^ 122"
    by (simp only: of_int_less_iff)
  then have "k - 13421773 * 2 ^ 122 \<le> - 1" by simp
  then have "(of_int (k - 13421773 * 2 ^ 122) :: rat) \<le> of_int (- 1)"
    by (simp only: of_int_le_iff)
  moreover have "(q - 13421773 / 134217728) * 2 ^ 149 = of_int (k - 13421773 * 2 ^ 122)"
    by (simp add: assms(2) field_simps)
  ultimately have "(q - 13421773 / 134217728) * 2 ^ 149 \<le> - 1" by simp
  then have "flt (rnd (q - 13421773 / 134217728)) (Fin 0)"
    by (rule rnd_below_zero)
  then show False
    using assms(1) by (simp add: bounces_Fin)
qed

lemma no_bounce_upper:
  assumes "\<not> bounces (Fin q)" "1 / 2 < q \<longrightarrow> (\<exists>k::int. q = of_int k / 2 ^ 24)"
  shows "q \<le> 15099495 / 16777216"
proof (rule ccontr)
  assume a: "\<not> q \<le> 15099495 / 16777216"
  then have "1 / 2 < q" by simp
  with assms(2) obtain k :: int where k: "q = of_int k / 2 ^ 24" by blast
  from a k have "(of_int (15099495::int) :: rat) < of_int k"
    by (simp add: field_simps)
  then have "15099495 < k" by (simp only: of_int_less_iff)
  then have "15099496 \<le> k" by simp
  then have "(of_int (15099496::int) :: rat) \<le> of_int k" by (simp only: of_int_le_iff)
  then have "15099496 / 16777216 \<le> q"
    using k by (simp add: field_simps)
  then have "134217741 / 134217728 \<le> q + 13421773 / 134217728"
    by simp
  then have "fle (rnd (134217741 / 134217728)) (rnd (q + 13421773 / 134217728))"
    by (rule rnd_mono)
  then have "flt (Fin 1) (rnd (q + 13421773 / 134217728))"
    unfolding rnd_above_one
    by (cases "rnd (q + 13421773 / 134217728)") (auto simp: fle_def flt_def is_nan_def fval_def)
  then show False
    using assms(1) by (simp add: bounces_Fin)
qed

lemma no_bounce_range:
  assumes "\<not> bounces p" "\<not> is_nan p" "p = fadd a b"
  shows "fle g_circleRadius p \<and> fle p (Fin (15099495 / 16777216))"
proof -
  from fadd_cases [of a b] assms bounces_special
  obtain q where q: "p = rnd q"
    by (auto simp: is_nan_def)
  with assms(1) bounces_special obtain q' where q': "rnd q = Fin q'"
    by (cases "rnd q") (auto simp: rnd_not_nan)
  from rnd_grid_149 [OF q'] obtain k :: int where k: "q' = of_int k / 2 ^ 149" by blast
  have nb: "\<not> bounces (Fin q')" using assms(1) q q' by simp
  have lo: "13421773 / 134217728 \<le> q'"
    by (rule no_bounce_lower [OF nb k])
  have hi: "q' \<le> 15099495 / 16777216"
    by (rule no_bounce_upper [OF nb]) (use rnd_grid_24 [OF q'] in blast)
  show ?thesis
    using lo hi by (simp add: q q' radius_value fle_def is_nan_def fval_def)
qed

lemma clamp_pos_below_next:
  "fle g_circleRadius (clamp_pos p) \<and> fle (clamp_pos p) (Fin (15099495 / 16777216))"
  using clamp_pos_range [of p] unfolding radius_value upper_value_eval
  by (cases "clamp_pos p") (auto simp: fle_def is_nan_def fval_def)

lemma bounces_upper_edge: "rnd (134217733 / 134217728) = Fin 1"
  by (rule rnd_to [where k = 8388608 and e = 126]) simp_all

lemma bounces_exact:
  assumes "fadd a b = Fin q"
  shows "bounces (Fin q) \<longleftrightarrow> q < 13421773 / 134217728 \<or> 15099495 / 16777216 < q"
proof
  assume b: "bounces (Fin q)"
  show "q < 13421773 / 134217728 \<or> 15099495 / 16777216 < q"
  proof (rule ccontr)
    assume "\<not> (q < 13421773 / 134217728 \<or> 15099495 / 16777216 < q)"
    then have r: "13421773 / 134217728 \<le> q" "q \<le> 15099495 / 16777216" by simp_all
    have "0 \<le> q - 13421773 / 134217728" using r(1) by simp
    then have lo: "\<not> flt (rnd (q - 13421773 / 134217728)) (Fin 0)"
      using round_mag_nonneg [of "(q - 13421773 / 134217728) * 2 ^ 149"]
      by (simp add: rnd_nonneg flt_def is_nan_def fval_def)
    have "q + 13421773 / 134217728 \<le> 134217733 / 134217728" using r(2) by simp
    then have "fle (rnd (q + 13421773 / 134217728)) (rnd (134217733 / 134217728))"
      by (rule rnd_mono)
    then have hi: "\<not> flt (Fin 1) (rnd (q + 13421773 / 134217728))"
      unfolding bounces_upper_edge
      by (cases "rnd (q + 13421773 / 134217728)") (auto simp: fle_def flt_def is_nan_def fval_def)
    from b lo hi show False by (simp add: bounces_Fin)
  qed
next
  assume e: "q < 13421773 / 134217728 \<or> 15099495 / 16777216 < q"
  show "bounces (Fin q)"
  proof (rule ccontr)
    assume nb: "\<not> bounces (Fin q)"
    from fadd_cases [of a b] assms obtain q0 where q0: "rnd q0 = Fin q" by auto
    from rnd_grid_149 [OF q0] obtain k :: int where k: "q = of_int k / 2 ^ 149" by blast
    have "13421773 / 134217728 \<le> q" by (rule no_bounce_lower [OF nb k])
    moreover have "q \<le> 15099495 / 16777216"
      by (rule no_bounce_upper [OF nb]) (use rnd_grid_24 [OF q0] in blast)
    ultimately show False using e by simp
  qed
qed

text \<open>
  Claim C4, as it holds of the code. One call of \<^verbatim>\<open>updateAnimation\<close>, for every state
  (NaNs and infinities included), axis by axis; neither axis reads or writes the other's
  position or velocity. Let \<open>p\<close> be the integrated position, position plus velocity.
  When the test of the code holds of \<open>p\<close> (\<^verbatim>\<open>p - r < 0 || p + r > 1\<close>, computed in
  \<^verbatim>\<open>float\<close>), the velocity of the axis is negated once and the position becomes the
  nearest point of \<open>[r, 1 - r]\<close> to \<open>p\<close>: the edge \<open>r\<close> when \<open>p\<close> is below it, the edge
  \<open>1 - r\<close> when \<open>p\<close> is above it, and \<open>p\<close> itself in between. Otherwise velocity and
  integrated position are left as they are. For a finite \<open>p\<close> the test holds exactly when
  the edge \<open>p - r\<close> is below 0 or the edge \<open>p + r\<close> is above \<open>1 + 5 / 2^27\<close>, in exact
  arithmetic: an upper edge in \<open>(1, 1 + 5 / 2^27]\<close> is not found outside. The test holds of
  both infinities and of the negative zero, and not of a NaN.
\<close>

theorem C4_bounce_per_axis:
  "(bounces (fadd (g_circleX s) (g_velocityX s))
      \<longrightarrow> g_velocityX (updateAnimation s) = fneg (g_velocityX s)
        \<and> g_circleX (updateAnimation s) = nearest_valid (fadd (g_circleX s) (g_velocityX s))
        \<and> fle g_circleRadius (g_circleX (updateAnimation s))
        \<and> fle (g_circleX (updateAnimation s)) (fsub (Fin 1) g_circleRadius))
 \<and> (\<not> bounces (fadd (g_circleX s) (g_velocityX s))
      \<longrightarrow> g_velocityX (updateAnimation s) = g_velocityX s
        \<and> g_circleX (updateAnimation s) = fadd (g_circleX s) (g_velocityX s))
 \<and> (bounces (fadd (g_circleY s) (g_velocityY s))
      \<longrightarrow> g_velocityY (updateAnimation s) = fneg (g_velocityY s)
        \<and> g_circleY (updateAnimation s) = nearest_valid (fadd (g_circleY s) (g_velocityY s))
        \<and> fle g_circleRadius (g_circleY (updateAnimation s))
        \<and> fle (g_circleY (updateAnimation s)) (fsub (Fin 1) g_circleRadius))
 \<and> (\<not> bounces (fadd (g_circleY s) (g_velocityY s))
      \<longrightarrow> g_velocityY (updateAnimation s) = g_velocityY s
        \<and> g_circleY (updateAnimation s) = fadd (g_circleY s) (g_velocityY s))
 \<and> (\<forall>q. fadd (g_circleX s) (g_velocityX s) = Fin q
      \<longrightarrow> (bounces (Fin q) \<longleftrightarrow> q - fval g_circleRadius < 0 \<or> 1 + 5 / 2 ^ 27 < q + fval g_circleRadius))
 \<and> (\<forall>q. fadd (g_circleY s) (g_velocityY s) = Fin q
      \<longrightarrow> (bounces (Fin q) \<longleftrightarrow> q - fval g_circleRadius < 0 \<or> 1 + 5 / 2 ^ 27 < q + fval g_circleRadius))
 \<and> bounces PInf \<and> bounces NInf \<and> bounces NegZero \<and> \<not> bounces NaN"
proof -
  have r: "fval g_circleRadius = 13421773 / 134217728"
    by (simp add: radius_value fval_def)
  have edge: "bounces (Fin q) \<longleftrightarrow> q - fval g_circleRadius < 0 \<or> 1 + 5 / 2 ^ 27 < q + fval g_circleRadius"
    if "fadd a b = Fin q" for a b q
  proof -
    have "q - fval g_circleRadius < 0 \<longleftrightarrow> q < 13421773 / 134217728"
      unfolding r by simp
    moreover have "1 + 5 / 2 ^ 27 < q + fval g_circleRadius \<longleftrightarrow> 15099495 / 16777216 < q"
      unfolding r by (simp add: field_simps)
    ultimately show ?thesis using bounces_exact [OF that] by simp
  qed
  have x: "g_circleX (updateAnimation s) = nearest_valid (fadd (g_circleX s) (g_velocityX s))"
    if "bounces (fadd (g_circleX s) (g_velocityX s))"
    using that clamp_pos_nearest [OF bounces_not_nan [OF that]]
    by (simp add: updateAnimation_def Let_def)
  have y: "g_circleY (updateAnimation s) = nearest_valid (fadd (g_circleY s) (g_velocityY s))"
    if "bounces (fadd (g_circleY s) (g_velocityY s))"
    using that clamp_pos_nearest [OF bounces_not_nan [OF that]]
    by (simp add: updateAnimation_def Let_def)
  have n: "\<not> bounces NaN" using bounces_not_nan [of NaN] by (auto simp: is_nan_def)
  have rest: "(bounces (fadd (g_circleX s) (g_velocityX s))
      \<longrightarrow> g_velocityX (updateAnimation s) = fneg (g_velocityX s)
        \<and> fle g_circleRadius (g_circleX (updateAnimation s))
        \<and> fle (g_circleX (updateAnimation s)) (fsub (Fin 1) g_circleRadius))
   \<and> (\<not> bounces (fadd (g_circleX s) (g_velocityX s))
      \<longrightarrow> g_velocityX (updateAnimation s) = g_velocityX s
        \<and> g_circleX (updateAnimation s) = fadd (g_circleX s) (g_velocityX s))
   \<and> (bounces (fadd (g_circleY s) (g_velocityY s))
      \<longrightarrow> g_velocityY (updateAnimation s) = fneg (g_velocityY s)
        \<and> fle g_circleRadius (g_circleY (updateAnimation s))
        \<and> fle (g_circleY (updateAnimation s)) (fsub (Fin 1) g_circleRadius))
   \<and> (\<not> bounces (fadd (g_circleY s) (g_velocityY s))
      \<longrightarrow> g_velocityY (updateAnimation s) = g_velocityY s
        \<and> g_circleY (updateAnimation s) = fadd (g_circleY s) (g_velocityY s))"
    using clamp_pos_range by (simp add: updateAnimation_def Let_def)
  show ?thesis
    using rest x y edge n bounces_special by blast
qed

theorem C4_bounce_per_axis_witness:
  "bounces (fadd (Fin (7549747 / 8388608)) (Fin (5368709 / 536870912)))
   \<and> g_velocityX (updateAnimation
        \<lparr>g_circleX = Fin (7549747 / 8388608), g_circleY = Fin (1 / 2),
         g_velocityX = Fin (5368709 / 536870912), g_velocityY = Fin (16106127 / 1073741824)\<rparr>)
      = fneg (Fin (5368709 / 536870912))
   \<and> g_circleX (updateAnimation
        \<lparr>g_circleX = Fin (7549747 / 8388608), g_circleY = Fin (1 / 2),
         g_velocityX = Fin (5368709 / 536870912), g_velocityY = Fin (16106127 / 1073741824)\<rparr>)
      = fsub (Fin 1) g_circleRadius
   \<and> \<not> bounces (fadd (Fin (1 / 2)) (Fin (16106127 / 1073741824)))
   \<and> g_velocityY (updateAnimation
        \<lparr>g_circleX = Fin (7549747 / 8388608), g_circleY = Fin (1 / 2),
         g_velocityX = Fin (5368709 / 536870912), g_velocityY = Fin (16106127 / 1073741824)\<rparr>)
      = Fin (16106127 / 1073741824)
   \<and> g_circleY (updateAnimation
        \<lparr>g_circleX = Fin (7549747 / 8388608), g_circleY = Fin (1 / 2),
         g_velocityX = Fin (5368709 / 536870912), g_velocityY = Fin (16106127 / 1073741824)\<rparr>)
      = Fin (4320133 / 8388608)"
proof -
  have b: "bounces (fadd (Fin (7549747 / 8388608)) (Fin (5368709 / 536870912)))"
    by (simp only: witness_x_step witness_x_bounces)
  have n: "\<not> bounces (fadd (Fin (1 / 2)) (Fin (16106127 / 1073741824)))"
    by (simp only: witness_y_step witness_y_no_bounce not_False_eq_True)
  have e: "nearest_valid (Fin (7633633 / 8388608)) = fsub (Fin 1) g_circleRadius"
    by (simp add: nearest_valid_def radius_value upper_value_eval fgt_def flt_def is_nan_def fval_def)
  from C4_bounce_per_axis [of
      "\<lparr>g_circleX = Fin (7549747 / 8388608), g_circleY = Fin (1 / 2),
         g_velocityX = Fin (5368709 / 536870912), g_velocityY = Fin (16106127 / 1073741824)\<rparr>"]
    b n
  show ?thesis by (simp add: witness_x_step witness_y_step e)
qed

lemma edge_y_step: "fadd (Fin (14847837 / 16777216)) (Fin (16106127 / 1073741824)) = Fin (15099495 / 16777216)"
  by (rule fadd_to, rule rnd_to [where k = 15099495 and e = 125]) simp_all

lemma edge_no_bounce: "\<not> bounces (Fin (15099495 / 16777216))"
proof -
  have a: "rnd (107374187 / 134217728) = Fin (13421773 / 16777216)"
    by (rule rnd_to [where k = 13421773 and e = 125]) simp_all
  have b: "rnd (134217733 / 134217728) = Fin (1)"
    by (rule rnd_to [where k = 8388608 and e = 126]) simp_all
  show ?thesis
    by (simp add: bounces_Fin a b flt_def is_nan_def fval_def)
qed

text \<open>
  Claim C4 as stated does not hold for every state. From the position 0.88500005 with
  the initial velocity \<^verbatim>\<open>0.015f\<close> on the vertical axis, the integrated position is
  0.90000004 and the edge \<open>p + r\<close> is \<open>1 + 5 / 2^27\<close>, outside \<open>[0, 1]\<close>; the sum rounds
  to \<^verbatim>\<open>1.0f\<close>, the test does not hold, the velocity is not negated and the position is
  not clamped: it stays above \<^verbatim>\<open>1.0f - 0.1f\<close>.
\<close>

theorem C4_counterexample:
  "fadd (Fin (14847837 / 16777216)) (Fin (16106127 / 1073741824)) = Fin (15099495 / 16777216)
   \<and> 1 < 15099495 / 16777216 + fval g_circleRadius
   \<and> g_velocityY (updateAnimation
        \<lparr>g_circleX = Fin (1 / 2), g_circleY = Fin (14847837 / 16777216),
         g_velocityX = Fin (5368709 / 536870912), g_velocityY = Fin (16106127 / 1073741824)\<rparr>)
      = Fin (16106127 / 1073741824)
   \<and> g_velocityY (updateAnimation
        \<lparr>g_circleX = Fin (1 / 2), g_circleY = Fin (14847837 / 16777216),
         g_velocityX = Fin (5368709 / 536870912), g_velocityY = Fin (16106127 / 1073741824)\<rparr>)
      \<noteq> fneg (Fin (16106127 / 1073741824))
   \<and> g_circleY (updateAnimation
        \<lparr>g_circleX = Fin (1 / 2), g_circleY = Fin (14847837 / 16777216),
         g_velocityX = Fin (5368709 / 536870912), g_velocityY = Fin (16106127 / 1073741824)\<rparr>)
      = Fin (15099495 / 16777216)
   \<and> \<not> fle (g_circleY (updateAnimation
        \<lparr>g_circleX = Fin (1 / 2), g_circleY = Fin (14847837 / 16777216),
         g_velocityX = Fin (5368709 / 536870912), g_velocityY = Fin (16106127 / 1073741824)\<rparr>))
        (fsub (Fin 1) g_circleRadius)"
proof -
  have n: "\<not> bounces (fadd (Fin (14847837 / 16777216)) (Fin (16106127 / 1073741824)))"
    by (simp only: edge_y_step edge_no_bounce not_False_eq_True)
  have y: "g_circleY (updateAnimation
        \<lparr>g_circleX = Fin (1 / 2), g_circleY = Fin (14847837 / 16777216),
         g_velocityX = Fin (5368709 / 536870912), g_velocityY = Fin (16106127 / 1073741824)\<rparr>)
      = Fin (15099495 / 16777216)"
    using n by (simp add: updateAnimation_def Let_def edge_y_step)
  have v: "g_velocityY (updateAnimation
        \<lparr>g_circleX = Fin (1 / 2), g_circleY = Fin (14847837 / 16777216),
         g_velocityX = Fin (5368709 / 536870912), g_velocityY = Fin (16106127 / 1073741824)\<rparr>)
      = Fin (16106127 / 1073741824)"
    using n by (simp add: updateAnimation_def Let_def)
  have d: "Fin (16106127 / 1073741824) \<noteq> fneg (Fin (16106127 / 1073741824))"
    by (simp add: fneg_def)
  have r: "(1 :: rat) < 15099495 / 16777216 + fval g_circleRadius"
    by (simp add: radius_value fval_def)
  have "\<not> fle (Fin (15099495 / 16777216)) (Fin (7549747 / 8388608))"
    by (simp add: fle_def is_nan_def fval_def)
  then show ?thesis
    using y v d r by (simp add: upper_value edge_y_step)
qed

text \<open>
  Claim C10, as it holds of the code, axis by axis. After a call of \<^verbatim>\<open>updateAnimation\<close>
  in which the integrated position of an axis (position plus velocity) is not a NaN, the
  position on that axis is at least the radius and at most 0.90000004 (15099495 / 2^24),
  the float next above \<^verbatim>\<open>1.0f - 0.1f\<close>: one unit in the last place above the interval of
  the claim; the other axis plays no part. When the bounce test triggered on the axis,
  the position is within \<open>[r, 1 - r]\<close> itself. When the integrated position of the axis
  is a NaN, the position is that NaN.
\<close>

theorem C10_position_after_update:
  "(\<not> is_nan (fadd (g_circleX s) (g_velocityX s))
      \<longrightarrow> fle g_circleRadius (g_circleX (updateAnimation s))
        \<and> fle (g_circleX (updateAnimation s)) (Fin (15099495 / 16777216)))
 \<and> (\<not> is_nan (fadd (g_circleY s) (g_velocityY s))
      \<longrightarrow> fle g_circleRadius (g_circleY (updateAnimation s))
        \<and> fle (g_circleY (updateAnimation s)) (Fin (15099495 / 16777216)))
 \<and> (bounces (fadd (g_circleX s) (g_velocityX s))
      \<longrightarrow> fle g_circleRadius (g_circleX (updateAnimation s))
        \<and> fle (g_circleX (updateAnimation s)) (fsub (Fin 1) g_circleRadius))
 \<and> (bounces (fadd (g_circleY s) (g_velocityY s))
      \<longrightarrow> fle g_circleRadius (g_circleY (updateAnimation s))
        \<and> fle (g_circleY (updateAnimation s)) (fsub (Fin 1) g_circleRadius))
 \<and> (is_nan (fadd (g_circleX s) (g_velocityX s)) \<longrightarrow> is_nan (g_circleX (updateAnimation s)))
 \<and> (is_nan (fadd (g_circleY s) (g_velocityY s)) \<longrightarrow> is_nan (g_circleY (updateAnimation s)))"
proof -
  have x: "fle g_circleRadius (g_circleX (updateAnimation s))
       \<and> fle (g_circleX (updateAnimation s)) (Fin (15099495 / 16777216))"
    if nn: "\<not> is_nan (fadd (g_circleX s) (g_velocityX s))"
  proof (cases "bounces (fadd (g_circleX s) (g_velocityX s))")
    case True
    then show ?thesis
      using clamp_pos_below_next by (simp add: updateAnimation_def Let_def)
  next
    case False
    from no_bounce_range [OF False nn refl] False show ?thesis
      by (simp add: updateAnimation_def Let_def)
  qed
  have y: "fle g_circleRadius (g_circleY (updateAnimation s))
       \<and> fle (g_circleY (updateAnimation s)) (Fin (15099495 / 16777216))"
    if nn: "\<not> is_nan (fadd (g_circleY s) (g_velocityY s))"
  proof (cases "bounces (fadd (g_circleY s) (g_velocityY s))")
    case True
    then show ?thesis
      using clamp_pos_below_next by (simp add: updateAnimation_def Let_def)
  next
    case False
    from no_bounce_range [OF False nn refl] False show ?thesis
      by (simp add: updateAnimation_def Let_def)
  qed
  have b: "(bounces (fadd (g_circleX s) (g_velocityX s))
      \<longrightarrow> fle g_circleRadius (g_circleX (updateAnimation s))
        \<and> fle (g_circleX (updateAnimation s)) (fsub (Fin 1) g_circleRadius))
   \<and> (bounces (fadd (g_circleY s) (g_velocityY s))
      \<longrightarrow> fle g_circleRadius (g_circleY (updateAnimation s))
        \<and> fle (g_circleY (updateAnimation s)) (fsub (Fin 1) g_circleRadius))"
    using clamp_pos_range by (simp add: updateAnimation_def Let_def)
  have nx: "is_nan (g_circleX (updateAnimation s))" if "is_nan (fadd (g_circleX s) (g_velocityX s))"
    using that bounces_not_nan [of "fadd (g_circleX s) (g_velocityX s)"]
    by (auto simp: updateAnimation_def Let_def)
  have ny: "is_nan (g_circleY (updateAnimation s))" if "is_nan (fadd (g_circleY s) (g_velocityY s))"
    using that bounces_not_nan [of "fadd (g_circleY s) (g_velocityY s)"]
    by (auto simp: updateAnimation_def Let_def)
  show ?thesis
    using x y b nx ny by blast
qed

theorem C10_position_after_update_witness:
  "\<not> is_nan (fadd (Fin (7549747 / 8388608)) (Fin (5368709 / 536870912)))
   \<and> is_nan (fadd NaN (Fin (16106127 / 1073741824)))
   \<and> fle g_circleRadius (g_circleX (updateAnimation
        \<lparr>g_circleX = Fin (7549747 / 8388608), g_circleY = NaN,
         g_velocityX = Fin (5368709 / 536870912), g_velocityY = Fin (16106127 / 1073741824)\<rparr>))
   \<and> fle (g_circleX (updateAnimation
        \<lparr>g_circleX = Fin (7549747 / 8388608), g_circleY = NaN,
         g_velocityX = Fin (5368709 / 536870912), g_velocityY = Fin (16106127 / 1073741824)\<rparr>))
        (Fin (15099495 / 16777216))
   \<and> is_nan (g_circleY (updateAnimation
        \<lparr>g_circleX = Fin (7549747 / 8388608), g_circleY = NaN,
         g_velocityX = Fin (5368709 / 536870912), g_velocityY = Fin (16106127 / 1073741824)\<rparr>))"
proof -
  have x: "\<not> is_nan (fadd (Fin (7549747 / 8388608)) (Fin (5368709 / 536870912)))"
    by (simp add: witness_x_step is_nan_def)
  have y: "is_nan (fadd NaN (Fin (16106127 / 1073741824)))"
    by (simp add: fadd_def is_nan_def)
  from C10_position_after_update [of
      "\<lparr>g_circleX = Fin (7549747 / 8388608), g_circleY = NaN,
         g_velocityX = Fin (5368709 / 536870912), g_velocityY = Fin (16106127 / 1073741824)\<rparr>"]
    x y
  show ?thesis by simp
qed

lemma cex_x_step: "fadd (Fin (14931723 / 16777216)) (Fin (5368709 / 536870912)) = Fin (15099495 / 16777216)"
  by (rule fadd_to, rule rnd_to [where k = 15099495 and e = 125]) simp_all

lemma cex_x_no_bounce: "\<not> bounces (Fin (15099495 / 16777216))"
proof -
  have a: "rnd (107374187 / 134217728) = Fin (13421773 / 16777216)"
    by (rule rnd_to [where k = 13421773 and e = 125]) simp_all
  have b: "rnd (134217733 / 134217728) = Fin (1)"
    by (rule rnd_to [where k = 8388608 and e = 126]) simp_all
  show ?thesis
    by (simp add: bounces_Fin a b flt_def is_nan_def fval_def)
qed

text \<open>
  C10 as stated fails. From the position 0.89000005 with the initial velocity
  \<^verbatim>\<open>0.01f\<close>, the integrated position is 0.90000004; adding the radius rounds to exactly
  \<^verbatim>\<open>1.0f\<close>, so the test \<^verbatim>\<open>p + r > 1.0f\<close> does not trigger, the position is kept and it
  is above \<^verbatim>\<open>1.0f - 0.1f\<close> = 0.89999998.
\<close>

theorem C10_counterexample:
  "\<not> bounces (fadd (Fin (14931723 / 16777216)) (Fin (5368709 / 536870912)))
   \<and> g_circleX (updateAnimation
        \<lparr>g_circleX = Fin (14931723 / 16777216), g_circleY = Fin (1 / 2),
         g_velocityX = Fin (5368709 / 536870912), g_velocityY = Fin (16106127 / 1073741824)\<rparr>)
      = Fin (15099495 / 16777216)
   \<and> g_velocityX (updateAnimation
        \<lparr>g_circleX = Fin (14931723 / 16777216), g_circleY = Fin (1 / 2),
         g_velocityX = Fin (5368709 / 536870912), g_velocityY = Fin (16106127 / 1073741824)\<rparr>)
      = Fin (5368709 / 536870912)
   \<and> fsub (Fin 1) g_circleRadius = Fin (7549747 / 8388608)
   \<and> \<not> fle (g_circleX (updateAnimation
        \<lparr>g_circleX = Fin (14931723 / 16777216), g_circleY = Fin (1 / 2),
         g_velocityX = Fin (5368709 / 536870912), g_velocityY = Fin (16106127 / 1073741824)\<rparr>))
        (fsub (Fin 1) g_circleRadius)"
proof -
  have n: "\<not> bounces (fadd (Fin (14931723 / 16777216)) (Fin (5368709 / 536870912)))"
    by (simp only: cex_x_step cex_x_no_bounce not_False_eq_True)
  have x: "g_circleX (updateAnimation
        \<lparr>g_circleX = Fin (14931723 / 16777216), g_circleY = Fin (1 / 2),
         g_velocityX = Fin (5368709 / 536870912), g_velocityY = Fin (16106127 / 1073741824)\<rparr>)
      = Fin (15099495 / 16777216)"
    using n by (simp add: updateAnimation_def Let_def cex_x_step)
  have v: "g_velocityX (updateAnimation
        \<lparr>g_circleX = Fin (14931723 / 16777216), g_circleY = Fin (1 / 2),
         g_velocityX = Fin (5368709 / 536870912), g_velocityY = Fin (16106127 / 1073741824)\<rparr>)
      = Fin (5368709 / 536870912)"
    using n by (simp add: updateAnimation_def Let_def)
  have "\<not> fle (Fin (15099495 / 16777216)) (Fin (7549747 / 8388608))"
    by (simp add: fle_def is_nan_def fval_def)
  then show ?thesis
    using n x v by (simp add: upper_value)
qed

section \<open>Proofs: steps without contact\<close>

lemma update_free:
  assumes "\<not> bounces (fadd (g_circleX s) (g_velocityX s))"
    and "\<not> bounces (fadd (g_circleY s) (g_velocityY s))"
  shows "updateAnimation s = s\<lparr>g_circleX := fadd (g_circleX s) (g_velocityX s),
                                 g_circleY := fadd (g_circleY s) (g_velocityY s)\<rparr>"
  using assms by (simp add: updateAnimation_def Let_def)

lemma free_step:
  assumes "\<not> is_nan x" "\<not> is_inf x" "\<not> is_nan v" "\<not> is_inf v" "\<not> bounces (fadd x v)"
  shows "\<not> is_nan (fadd x v) \<and> \<not> is_inf (fadd x v)
           \<and> \<bar>fval (fadd x v) - (fval x + fval v)\<bar> \<le> 1 / 2 ^ 25"
proof -
  have "fadd x v \<noteq> NegZero"
    using assms(5) bounces_special by auto
  then have r: "fadd x v = rnd (fval x + fval v)"
    using assms(1-4) by (auto simp: fadd_def is_inf_def)
  have n: "\<not> is_nan (fadd x v)"
    unfolding r by (simp add: is_nan_def rnd_not_nan)
  from no_bounce_range [OF assms(5) n refl]
  have range: "fle g_circleRadius (fadd x v)" "fle (fadd x v) (Fin (15099495 / 16777216))"
    by simp_all
  with n \<open>fadd x v \<noteq> NegZero\<close> obtain q' where q': "fadd x v = Fin q'"
    by (cases "fadd x v") (auto simp: is_nan_def fle_def radius_value)
  have b: "0 \<le> q'" "q' < 1"
    using range unfolding q' radius_value by (simp_all add: fle_def is_nan_def fval_def)
  have "\<bar>q' - (fval x + fval v)\<bar> \<le> 1 / 2 ^ 25"
    by (rule rnd_error_unit [OF _ b]) (use r q' in simp)
  then show ?thesis
    using n by (simp add: q' is_inf_def fval_def)
qed

lemma error_step:
  fixes a b v x0 :: rat
  assumes "\<bar>a - (b + v)\<bar> \<le> 1 / 2 ^ 25" "\<bar>b - (x0 + of_nat n * v)\<bar> \<le> of_nat n / 2 ^ 25"
  shows "\<bar>a - (x0 + of_nat (Suc n) * v)\<bar> \<le> of_nat (Suc n) / 2 ^ 25"
proof -
  have "a - (x0 + of_nat (Suc n) * v) = (a - (b + v)) + (b - (x0 + of_nat n * v))"
    by (simp add: algebra_simps)
  then have "\<bar>a - (x0 + of_nat (Suc n) * v)\<bar> \<le> \<bar>a - (b + v)\<bar> + \<bar>b - (x0 + of_nat n * v)\<bar>"
    by (simp only: abs_triangle_ineq)
  also have "\<dots> \<le> 1 / 2 ^ 25 + of_nat n / 2 ^ 25"
    using assms by (rule add_mono)
  also have "\<dots> = of_nat (Suc n) / 2 ^ 25"
    by (simp add: add_divide_distrib)
  finally show ?thesis .
qed

text \<open>
  C5. From a state whose position and velocity are finite floats, \<open>n\<close> calls of
  \<^verbatim>\<open>updateAnimation\<close> none of which finds a contact on either axis leave the velocity as
  it was, and the position within \<open>n * 2^-25\<close> of the initial position plus \<open>n\<close> times the
  velocity: each call adds the velocity once and rounds once, to a result below 1, where
  a rounding error is at most half a unit in the last place, \<open>2^-25\<close>.
\<close>

theorem C5_free_flight:
  assumes "is_finite (g_circleX s)" "is_finite (g_velocityX s)"
    and "is_finite (g_circleY s)" "is_finite (g_velocityY s)"
    and "\<forall>k<n. \<not> bounces (fadd (g_circleX (update_n k s)) (g_velocityX (update_n k s)))
               \<and> \<not> bounces (fadd (g_circleY (update_n k s)) (g_velocityY (update_n k s)))"
  shows "g_velocityX (update_n n s) = g_velocityX s
       \<and> g_velocityY (update_n n s) = g_velocityY s
       \<and> \<not> is_nan (g_circleX (update_n n s)) \<and> \<not> is_inf (g_circleX (update_n n s))
       \<and> \<not> is_nan (g_circleY (update_n n s)) \<and> \<not> is_inf (g_circleY (update_n n s))
       \<and> \<bar>fval (g_circleX (update_n n s)) - (fval (g_circleX s) + of_nat n * fval (g_velocityX s))\<bar>
            \<le> of_nat n / 2 ^ 25
       \<and> \<bar>fval (g_circleY (update_n n s)) - (fval (g_circleY s) + of_nat n * fval (g_velocityY s))\<bar>
            \<le> of_nat n / 2 ^ 25"
  using assms(5)
proof (induction n)
  case 0
  show ?case
    using assms(1-4) by (simp add: is_finite_def)
next
  case (Suc n)
  let ?t = "update_n n s"
  have ih: "g_velocityX ?t = g_velocityX s" "g_velocityY ?t = g_velocityY s"
    "\<not> is_nan (g_circleX ?t)" "\<not> is_inf (g_circleX ?t)"
    "\<not> is_nan (g_circleY ?t)" "\<not> is_inf (g_circleY ?t)"
    "\<bar>fval (g_circleX ?t) - (fval (g_circleX s) + of_nat n * fval (g_velocityX s))\<bar> \<le> of_nat n / 2 ^ 25"
    "\<bar>fval (g_circleY ?t) - (fval (g_circleY s) + of_nat n * fval (g_velocityY s))\<bar> \<le> of_nat n / 2 ^ 25"
    using Suc by simp_all
  have free: "\<not> bounces (fadd (g_circleX ?t) (g_velocityX ?t))"
    "\<not> bounces (fadd (g_circleY ?t) (g_velocityY ?t))"
    using Suc.prems by simp_all
  have v: "\<not> is_nan (g_velocityX ?t)" "\<not> is_inf (g_velocityX ?t)"
    "\<not> is_nan (g_velocityY ?t)" "\<not> is_inf (g_velocityY ?t)"
    using assms(2,4) ih(1,2) by (simp_all add: is_finite_def)
  have next_state: "update_n (Suc n) s
      = ?t\<lparr>g_circleX := fadd (g_circleX ?t) (g_velocityX ?t),
            g_circleY := fadd (g_circleY ?t) (g_velocityY ?t)\<rparr>"
    using update_free [OF free] by simp
  from free_step [OF ih(3,4) v(1,2) free(1)]
  have x: "\<not> is_nan (fadd (g_circleX ?t) (g_velocityX ?t))"
    "\<not> is_inf (fadd (g_circleX ?t) (g_velocityX ?t))"
    "\<bar>fval (fadd (g_circleX ?t) (g_velocityX ?t)) - (fval (g_circleX ?t) + fval (g_velocityX ?t))\<bar>
       \<le> 1 / 2 ^ 25"
    by simp_all
  from free_step [OF ih(5,6) v(3,4) free(2)]
  have y: "\<not> is_nan (fadd (g_circleY ?t) (g_velocityY ?t))"
    "\<not> is_inf (fadd (g_circleY ?t) (g_velocityY ?t))"
    "\<bar>fval (fadd (g_circleY ?t) (g_velocityY ?t)) - (fval (g_circleY ?t) + fval (g_velocityY ?t))\<bar>
       \<le> 1 / 2 ^ 25"
    by simp_all
  have ex: "\<bar>fval (fadd (g_circleX ?t) (g_velocityX ?t))
              - (fval (g_circleX s) + of_nat (Suc n) * fval (g_velocityX s))\<bar> \<le> of_nat (Suc n) / 2 ^ 25"
    using x(3) ih(7) unfolding ih(1) by (rule error_step)
  have ey: "\<bar>fval (fadd (g_circleY ?t) (g_velocityY ?t))
              - (fval (g_circleY s) + of_nat (Suc n) * fval (g_velocityY s))\<bar> \<le> of_nat (Suc n) / 2 ^ 25"
    using y(3) ih(8) unfolding ih(2) by (rule error_step)
  show ?case
    unfolding next_state using ih(1,2) x(1,2) y(1,2) ex ey by simp
qed

lemma flight_x1: "fadd (Fin (1 / 2)) (Fin (5368709 / 536870912)) = Fin (2139095 / 4194304)"
  by (rule fadd_to, rule rnd_to [where k = 8556380 and e = 125]) simp_all

lemma flight_x2: "fadd (Fin (2139095 / 4194304)) (Fin (5368709 / 536870912)) = Fin (1090519 / 2097152)"
  by (rule fadd_to, rule rnd_to [where k = 8724152 and e = 125]) simp_all

lemma flight_y1: "fadd (Fin (1 / 2)) (Fin (16106127 / 1073741824)) = Fin (4320133 / 8388608)"
  by (rule fadd_to, rule rnd_to [where k = 8640266 and e = 125]) simp_all

lemma flight_y2: "fadd (Fin (4320133 / 8388608)) (Fin (16106127 / 1073741824)) = Fin (2222981 / 4194304)"
  by (rule fadd_to, rule rnd_to [where k = 8891924 and e = 125]) simp_all

lemma flight_x1_free: "\<not> bounces (Fin (2139095 / 4194304))"
proof -
  have a: "rnd (55029267 / 134217728) = Fin (13757317 / 33554432)"
    by (rule rnd_to [where k = 13757317 and e = 124]) simp_all
  have b: "rnd (81872813 / 134217728) = Fin (5117051 / 8388608)"
    by (rule rnd_to [where k = 10234102 and e = 125]) simp_all
  show ?thesis
    by (simp add: bounces_Fin a b flt_def is_nan_def fval_def)
qed

lemma flight_x2_free: "\<not> bounces (Fin (1090519 / 2097152))"
proof -
  have a: "rnd (56371443 / 134217728) = Fin (14092861 / 33554432)"
    by (rule rnd_to [where k = 14092861 and e = 124]) simp_all
  have b: "rnd (83214989 / 134217728) = Fin (5200937 / 8388608)"
    by (rule rnd_to [where k = 10401874 and e = 125]) simp_all
  show ?thesis
    by (simp add: bounces_Fin a b flt_def is_nan_def fval_def)
qed

lemma flight_y1_free: "\<not> bounces (Fin (4320133 / 8388608))"
proof -
  have a: "rnd (55700355 / 134217728) = Fin (13925089 / 33554432)"
    by (rule rnd_to [where k = 13925089 and e = 124]) simp_all
  have b: "rnd (82543901 / 134217728) = Fin (2579497 / 4194304)"
    by (rule rnd_to [where k = 10317988 and e = 125]) simp_all
  show ?thesis
    by (simp add: bounces_Fin a b flt_def is_nan_def fval_def)
qed

lemma flight_y2_free: "\<not> bounces (Fin (2222981 / 4194304))"
proof -
  have a: "rnd (57713619 / 134217728) = Fin (14428405 / 33554432)"
    by (rule rnd_to [where k = 14428405 and e = 124]) simp_all
  have b: "rnd (84557165 / 134217728) = Fin (5284823 / 8388608)"
    by (rule rnd_to [where k = 10569646 and e = 125]) simp_all
  show ?thesis
    by (simp add: bounces_Fin a b flt_def is_nan_def fval_def)
qed

lemma flight_vx: "rnd (5368709 / 536870912) = Fin (5368709 / 536870912)"
  by (rule rnd_to [where k = 10737418 and e = 119]) simp_all

lemma flight_vy: "rnd (16106127 / 1073741824) = Fin (16106127 / 1073741824)"
  by (rule rnd_to [where k = 16106127 and e = 119]) simp_all

lemma flight_half: "rnd (1 / 2) = Fin (1 / 2)"
  by (rule rnd_to [where k = 8388608 and e = 125]) simp_all

theorem C5_free_flight_witness:
  "is_finite (Fin (1 / 2)) \<and> is_finite (Fin (5368709 / 536870912)) \<and> is_finite (Fin (16106127 / 1073741824))
   \<and> \<not> bounces (fadd (Fin (1 / 2)) (Fin (5368709 / 536870912)))
   \<and> \<not> bounces (fadd (Fin (2139095 / 4194304)) (Fin (5368709 / 536870912)))
   \<and> g_velocityX (update_n 2
        \<lparr>g_circleX = Fin (1 / 2), g_circleY = Fin (1 / 2),
         g_velocityX = Fin (5368709 / 536870912), g_velocityY = Fin (16106127 / 1073741824)\<rparr>)
      = Fin (5368709 / 536870912)
   \<and> \<bar>fval (g_circleX (update_n 2
        \<lparr>g_circleX = Fin (1 / 2), g_circleY = Fin (1 / 2),
         g_velocityX = Fin (5368709 / 536870912), g_velocityY = Fin (16106127 / 1073741824)\<rparr>))
       - (1 / 2 + 2 * (5368709 / 536870912))\<bar> \<le> 2 / 2 ^ 25
   \<and> \<bar>fval (g_circleY (update_n 2
        \<lparr>g_circleX = Fin (1 / 2), g_circleY = Fin (1 / 2),
         g_velocityX = Fin (5368709 / 536870912), g_velocityY = Fin (16106127 / 1073741824)\<rparr>))
       - (1 / 2 + 2 * (16106127 / 1073741824))\<bar> \<le> 2 / 2 ^ 25"
proof -
  let ?s = "\<lparr>g_circleX = Fin (1 / 2), g_circleY = Fin (1 / 2),
         g_velocityX = Fin (5368709 / 536870912), g_velocityY = Fin (16106127 / 1073741824)\<rparr>"
  have f: "is_finite (Fin (1 / 2))" "is_finite (Fin (5368709 / 536870912))" "is_finite (Fin (16106127 / 1073741824))"
    by (simp_all add: is_finite_def is_f32_def is_nan_def is_inf_def flight_vx flight_vy flight_half)
  have b: "\<not> bounces (fadd (Fin (1 / 2)) (Fin (5368709 / 536870912)))"
    "\<not> bounces (fadd (Fin (2139095 / 4194304)) (Fin (5368709 / 536870912)))"
    "\<not> bounces (fadd (Fin (1 / 2)) (Fin (16106127 / 1073741824)))"
    "\<not> bounces (fadd (Fin (4320133 / 8388608)) (Fin (16106127 / 1073741824)))"
    by (simp_all only: flight_x1 flight_x2 flight_y1 flight_y2
        flight_x1_free flight_x2_free flight_y1_free flight_y2_free not_False_eq_True)
  have s1: "updateAnimation ?s
      = \<lparr>g_circleX = Fin (2139095 / 4194304), g_circleY = Fin (4320133 / 8388608),
         g_velocityX = Fin (5368709 / 536870912), g_velocityY = Fin (16106127 / 1073741824)\<rparr>"
    using b by (simp add: updateAnimation_def Let_def flight_x1 flight_y1)
  have free: "\<forall>k<2. \<not> bounces (fadd (g_circleX (update_n k ?s)) (g_velocityX (update_n k ?s)))
                \<and> \<not> bounces (fadd (g_circleY (update_n k ?s)) (g_velocityY (update_n k ?s)))"
  proof (intro allI impI)
    fix k :: nat assume "k < 2"
    then have "k = 0 \<or> k = Suc 0" by arith
    then show "\<not> bounces (fadd (g_circleX (update_n k ?s)) (g_velocityX (update_n k ?s)))
                \<and> \<not> bounces (fadd (g_circleY (update_n k ?s)) (g_velocityY (update_n k ?s)))"
      using b by (auto simp: s1)
  qed
  have "is_finite (g_circleX ?s)" "is_finite (g_velocityX ?s)" "is_finite (g_circleY ?s)"
    "is_finite (g_velocityY ?s)"
    using f by simp_all
  from C5_free_flight [OF this free] f b(1,2)
  show ?thesis by (simp add: fval_def)
qed

section \<open>Proofs: failure to create the render thread\<close>

text \<open>
  C9. When \<^verbatim>\<open>ANativeWindow_fromSurface\<close> has returned a window and \<^verbatim>\<open>pthread_create\<close>
  fails (a result other than 0), the handler leaves the running flag cleared and the
  window handle absent, has given back the reference it acquired on the window, and has
  started no thread. From the idle state (no window, not running) the session is as it
  was, but for whatever \<^verbatim>\<open>pthread_create\<close> left in the thread handle.
\<close>

theorem C9_thread_creation_failure:
  assumes "result \<noteq> 0"
  shows "g_running (nativeOnSurfaceCreated (Some w) result tid s) = False
       \<and> g_window (nativeOnSurfaceCreated (Some w) result tid s) = None
       \<and> window_refs (nativeOnSurfaceCreated (Some w) result tid s) = window_refs s
       \<and> started_threads (nativeOnSurfaceCreated (Some w) result tid s) = started_threads s
       \<and> (g_window s = None \<and> \<not> g_running s
            \<longrightarrow> nativeOnSurfaceCreated (Some w) result tid s = s\<lparr>g_render_thread := tid\<rparr>)"
  using assms
  by (auto simp: nativeOnSurfaceCreated_def ANativeWindow_release_def Let_def fun_eq_iff)


theorem C9_thread_creation_failure_witness:
  "(11::int) \<noteq> 0
   \<and> g_running (nativeOnSurfaceCreated (Some 7) 11 0
        \<lparr>g_window = None, g_render_thread = 0, g_running = False,
         window_refs = (\<lambda>w. 0), started_threads = []\<rparr>) = False
   \<and> g_window (nativeOnSurfaceCreated (Some 7) 11 0
        \<lparr>g_window = None, g_render_thread = 0, g_running = False,
         window_refs = (\<lambda>w. 0), started_threads = []\<rparr>) = None
   \<and> window_refs (nativeOnSurfaceCreated (Some 7) 11 0
        \<lparr>g_window = None, g_render_thread = 0, g_running = False,
         window_refs = (\<lambda>w. 0), started_threads = []\<rparr>) 7 = 0"
proof -
  have h: "(11::int) \<noteq> 0" by simp
  from C9_thread_creation_failure [OF h, of 7 0
      "\<lparr>g_window = None, g_render_thread = 0, g_running = False,
        window_refs = (\<lambda>w. 0), started_threads = []\<rparr>"]
  show ?thesis by simp
qed

section \<open>Proofs: failure to compile or to link\<close>

lemma compileShader_failed:
  assumes "name \<notin> shaders c" "flagged c \<subseteq> shaders c"
    and "\<forall>p \<in> programs c. attached c p \<subseteq> shaders c"
    and "name = 0 \<or> \<not> compiled"
  shows "compileShader name compiled c = (0, c)"
proof (cases "name = 0")
  case True
  then show ?thesis by (simp add: compileShader_def)
next
  case False
  with assms(4) have nc: "\<not> compiled" by simp
  have na: "\<not> (\<exists>p \<in> programs c. name \<in> attached c p)"
    using assms(1,3) by blast
  have nf: "name \<notin> flagged c"
    using assms(1,2) by blast
  have "glDeleteShader name (c\<lparr>shaders := insert name (shaders c)\<rparr>) = c"
    using na nf assms(1) by (simp add: glDeleteShader_def)
  then show ?thesis
    using False nc by (simp add: compileShader_def Let_def)
qed

lemma compileShader_ok:
  assumes "name \<noteq> 0" "compiled"
  shows "compileShader name compiled c = (name, c\<lparr>shaders := insert name (shaders c)\<rparr>)"
  using assms by (simp add: compileShader_def Let_def)

lemma glDeleteShader_fresh:
  assumes "sh \<notin> flagged c" "\<forall>p \<in> programs c. sh \<notin> attached c p"
  shows "glDeleteShader sh c = c\<lparr>shaders := shaders c - {sh}\<rparr>"
  using assms by (auto simp: glDeleteShader_def)

lemma createProgram_failed:
  assumes wf: "\<forall>p. p \<notin> programs c \<longrightarrow> attached c p = {}"
      "\<forall>p \<in> programs c. attached c p \<subseteq> shaders c" "flagged c \<subseteq> shaders c"
    and fresh: "vs_name d \<notin> shaders c" "fs_name d \<notin> shaders c"
      "fs_name d = 0 \<or> fs_name d \<noteq> vs_name d" "prog_name d \<notin> programs c"
    and fail: "vs_name d = 0 \<or> \<not> vs_compiled d \<or> fs_name d = 0 \<or> \<not> fs_compiled d
                \<or> prog_name d = 0 \<or> \<not> prog_linked d"
  shows "createProgram d c = (0, c)"
proof (cases "vs_name d = 0 \<or> \<not> vs_compiled d")
  case True
  then show ?thesis
    using compileShader_failed [OF fresh(1) wf(3) wf(2)]
    by (simp add: createProgram_def)
next
  case vs: False
  let ?v = "vs_name d"
  let ?c1 = "c\<lparr>shaders := insert ?v (shaders c)\<rparr>"
  have v: "compileShader ?v (vs_compiled d) c = (?v, ?c1)"
    using vs by (simp add: compileShader_ok)
  have v_free: "?v \<notin> flagged c" "\<forall>p \<in> programs c. ?v \<notin> attached c p"
    using fresh(1) wf(2,3) by blast+
  show ?thesis
  proof (cases "fs_name d = 0 \<or> \<not> fs_compiled d")
    case True
    have "compileShader (fs_name d) (fs_compiled d) ?c1 = (0, ?c1)"
      by (rule compileShader_failed) (use True fresh vs wf in auto)
    moreover have "glDeleteShader ?v ?c1 = c"
      using v_free fresh(1) by (simp add: glDeleteShader_def)
    ultimately show ?thesis
      using v vs by (simp add: createProgram_def)
  next
    case fs: False
    let ?f = "fs_name d"
    let ?c2 = "?c1\<lparr>shaders := insert ?f (shaders ?c1)\<rparr>"
    have f: "compileShader ?f (fs_compiled d) ?c1 = (?f, ?c2)"
      using fs by (simp add: compileShader_ok)
    have f_free: "?f \<notin> flagged c" "\<forall>p \<in> programs c. ?f \<notin> attached c p" "?f \<noteq> ?v"
      using fresh(2,3) wf(2,3) fs by blast+
    show ?thesis
    proof (cases "prog_name d = 0")
      case True
      have "glDeleteShader ?f (glDeleteShader ?v ?c2) = c"
        using v_free f_free fresh(1,2) by (simp add: glDeleteShader_def insert_Diff_if)
      then show ?thesis
        using v f vs fs True by (simp add: createProgram_def)
    next
      case pn: False
      with fail vs fs have nl: "\<not> prog_linked d" by simp
      let ?p = "prog_name d"
      let ?c3 = "?c2\<lparr>programs := insert ?p (programs ?c2)\<rparr>"
      let ?c4 = "glAttachShader ?p ?f (glAttachShader ?p ?v ?c3)"
      have empty: "attached c ?p = {}"
        using wf(1) fresh(4) by simp
      have c4: "?c4 = ?c3\<lparr>attached := (attached c)(?p := {?f, ?v})\<rparr>"
        using empty by (simp add: glAttachShader_def)
      have gone: "{sh. (sh = ?f \<or> sh = ?v) \<and> sh \<in> flagged c \<and> P sh} = {}" for P
        using v_free(1) f_free(1) by auto
      have del: "glDeleteProgram ?p ?c4 = ?c2"
        unfolding c4 using fresh(4) empty
        by (simp add: glDeleteProgram_def Let_def insert_Diff_if fun_upd_idem gone)
      have "glDeleteShader ?f (glDeleteShader ?v ?c2) = c"
        using v_free f_free fresh(1,2) by (simp add: glDeleteShader_def insert_Diff_if)
      then show ?thesis
        using v f vs fs pn nl del by (simp add: createProgram_def)
    qed
  qed
qed

text \<open>
  C8. In a context where attachments and deletion flags only concern live objects, with
  a driver that hands out names not in use: if the vertex stage or the fragment stage
  cannot be created or does not compile, or the program cannot be created or does not
  link, then \<^verbatim>\<open>initGL\<close> returns \<^verbatim>\<open>false\<close>, the program handle is 0 and the context is
  exactly as before the call: every shader and program object made on the way has been
  deleted (nothing after a vertex-stage failure, the vertex stage after a fragment-stage
  failure, both stages and the program after a link failure).
\<close>

theorem C8_shader_failure_releases:
  assumes "\<forall>p. p \<notin> programs (gl_ctx r) \<longrightarrow> attached (gl_ctx r) p = {}"
      "\<forall>p \<in> programs (gl_ctx r). attached (gl_ctx r) p \<subseteq> shaders (gl_ctx r)"
      "flagged (gl_ctx r) \<subseteq> shaders (gl_ctx r)"
    and "vs_name d \<notin> shaders (gl_ctx r)" "fs_name d \<notin> shaders (gl_ctx r)"
      "fs_name d = 0 \<or> fs_name d \<noteq> vs_name d" "prog_name d \<notin> programs (gl_ctx r)"
    and "vs_name d = 0 \<or> \<not> vs_compiled d \<or> fs_name d = 0 \<or> \<not> fs_compiled d
           \<or> prog_name d = 0 \<or> \<not> prog_linked d"
  shows "initGL d r = (False, r\<lparr>g_shaderProgram := 0\<rparr>)"
  using createProgram_failed [OF assms]
  by (simp add: initGL_def)

theorem C8_shader_failure_releases_witness:
  "initGL \<lparr>vs_name = 1, vs_compiled = True, fs_name = 2, fs_compiled = True, prog_name = 3,
           prog_linked = False, mvp_location = 0, color_location = 1, vbo_name = 1\<rparr>
     \<lparr>g_shaderProgram = 9, g_mvpMatrixLocation = - 1, g_colorLocation = - 1, g_vbo = 0,
      gl_ctx = \<lparr>shaders = {}, programs = {}, attached = (\<lambda>p. {}), flagged = {}, buffers = {}\<rparr>\<rparr>
   = (False,
      \<lparr>g_shaderProgram = 0, g_mvpMatrixLocation = - 1, g_colorLocation = - 1, g_vbo = 0,
       gl_ctx = \<lparr>shaders = {}, programs = {}, attached = (\<lambda>p. {}), flagged = {}, buffers = {}\<rparr>\<rparr>)"
  using C8_shader_failure_releases [of
      "\<lparr>g_shaderProgram = 9, g_mvpMatrixLocation = - 1, g_colorLocation = - 1, g_vbo = 0,
        gl_ctx = \<lparr>shaders = {}, programs = {}, attached = (\<lambda>p. {}), flagged = {}, buffers = {}\<rparr>\<rparr>"
      "\<lparr>vs_name = 1, vs_compiled = True, fs_name = 2, fs_compiled = True, prog_name = 3,
        prog_linked = False, mvp_location = 0, color_location = 1, vbo_name = 1\<rparr>"]
  by simp

section \<open>Proofs: matrix multiplication\<close>

lemma upt_4: "[0..<4] = [0, 1, 2, 3]"
  by (simp add: upt_rec)

lemma less_4_cases: "i < (4::nat) \<Longrightarrow> i = 0 \<or> i = 1 \<or> i = 2 \<or> i = 3"
  by arith

lemma matrix_at_nth: "n < 16 \<Longrightarrow> matrix_at mem p ! n = mem (p + n)"
  by (simp add: matrix_at_def)

lemma mm_k_loop_eq:
  assumes "i * 4 + j < length temp"
  shows "mm_k_loop mem a b i j temp =
           temp[i * 4 + j :=
             fadd (fadd (fadd (fadd (temp ! (i * 4 + j))
               (fmul (mem (a + (i * 4 + 0))) (mem (b + (0 * 4 + j)))))
               (fmul (mem (a + (i * 4 + 1))) (mem (b + (1 * 4 + j)))))
               (fmul (mem (a + (i * 4 + 2))) (mem (b + (2 * 4 + j)))))
               (fmul (mem (a + (i * 4 + 3))) (mem (b + (3 * 4 + j))))]"
  using assms by (simp add: mm_k_loop_def upt_4)

lemma mm_cell_eq:
  assumes "i < 4" "j < 4" "length temp = 16"
  shows "mm_k_loop mem a b i j (temp[i * 4 + j := Fin 0])
           = temp[i * 4 + j := product_entry (matrix_at mem a) (matrix_at mem b) i j]"
proof -
  have lt: "i * 4 + j < length (temp[i * 4 + j := Fin 0])"
    using assms by simp
  have idx: "4 * i + 0 < 16" "4 * i + 1 < 16" "4 * i + 2 < 16" "4 * i + 3 < 16"
    "4 * 0 + j < 16" "4 * 1 + j < 16" "4 * 2 + j < 16" "4 * 3 + j < 16"
    using assms by simp_all
  show ?thesis
    unfolding mm_k_loop_eq [OF lt] product_entry_def
    using assms idx by (simp add: matrix_at_nth mult.commute)
qed

lemma mm_j_loop_eq:
  assumes "i < 4" "length temp = 16"
  shows "mm_j_loop mem a b i temp =
           temp[i * 4 + 0 := product_entry (matrix_at mem a) (matrix_at mem b) i 0,
                i * 4 + 1 := product_entry (matrix_at mem a) (matrix_at mem b) i 1,
                i * 4 + 2 := product_entry (matrix_at mem a) (matrix_at mem b) i 2,
                i * 4 + 3 := product_entry (matrix_at mem a) (matrix_at mem b) i 3]"
proof -
  let ?P = "product_entry (matrix_at mem a) (matrix_at mem b) i"
  let ?t1 = "temp[i * 4 + 0 := ?P 0]"
  let ?t2 = "?t1[i * 4 + 1 := ?P 1]"
  let ?t3 = "?t2[i * 4 + 2 := ?P 2]"
  have s: "mm_j_loop mem a b i temp =
      mm_k_loop mem a b i 3 ((mm_k_loop mem a b i 2 ((mm_k_loop mem a b i 1
        ((mm_k_loop mem a b i 0 (temp[i * 4 + 0 := Fin 0]))[i * 4 + 1 := Fin 0]))[i * 4 + 2 := Fin 0]))
        [i * 4 + 3 := Fin 0])"
    by (simp only: mm_j_loop_def upt_4 fold.simps o_apply id_apply)
  have c0: "mm_k_loop mem a b i 0 (temp[i * 4 + 0 := Fin 0]) = ?t1"
    by (rule mm_cell_eq) (use assms in simp_all)
  have c1: "mm_k_loop mem a b i 1 (?t1[i * 4 + 1 := Fin 0]) = ?t2"
    by (rule mm_cell_eq) (use assms in simp_all)
  have c2: "mm_k_loop mem a b i 2 (?t2[i * 4 + 2 := Fin 0]) = ?t3"
    by (rule mm_cell_eq) (use assms in simp_all)
  have c3: "mm_k_loop mem a b i 3 (?t3[i * 4 + 3 := Fin 0]) = ?t3[i * 4 + 3 := ?P 3]"
    by (rule mm_cell_eq) (use assms in simp_all)
  show ?thesis
    unfolding s c0 c1 c2 c3 ..
qed

lemma mm_j_loop_length:
  assumes "i < 4" "length temp = 16"
  shows "length (mm_j_loop mem a b i temp) = 16"
  by (simp only: mm_j_loop_eq [OF assms] length_list_update assms(2))

lemma mm_j_loop_nth_cell:
  assumes "i < 4" "length temp = 16" "q < 4" "r < 4"
  shows "mm_j_loop mem a b i temp ! (4 * q + r) =
           (if q = i then product_entry (matrix_at mem a) (matrix_at mem b) i r
            else temp ! (4 * q + r))"
  using less_4_cases [OF assms(1)] less_4_cases [OF assms(3)] less_4_cases [OF assms(4)]
  by (elim disjE) (simp_all add: mm_j_loop_eq assms(2) nth_list_update)

lemma mm_j_loop_nth:
  assumes "i < 4" "length temp = 16" "n < 16"
  shows "mm_j_loop mem a b i temp ! n =
           (if n div 4 = i then product_entry (matrix_at mem a) (matrix_at mem b) i (n mod 4)
            else temp ! n)"
proof -
  have qr: "n div 4 < 4" "n mod 4 < 4" "4 * (n div 4) + n mod 4 = n"
    using assms(3) by simp_all
  show ?thesis
    using mm_j_loop_nth_cell [OF assms(1,2) qr(1,2)] by (simp only: qr(3))
qed

lemma mm_i_loop_nth:
  assumes "length temp = 16" "n < 16"
  shows "length (mm_i_loop mem a b temp) = 16"
    and "mm_i_loop mem a b temp ! n = product_entry (matrix_at mem a) (matrix_at mem b) (n div 4) (n mod 4)"
proof -
  let ?t1 = "mm_j_loop mem a b 0 temp"
  let ?t2 = "mm_j_loop mem a b 1 ?t1"
  let ?t3 = "mm_j_loop mem a b 2 ?t2"
  let ?t4 = "mm_j_loop mem a b 3 ?t3"
  have s: "mm_i_loop mem a b temp = ?t4"
    by (simp only: mm_i_loop_def upt_4 fold.simps o_apply id_apply)
  have l1: "length ?t1 = 16" by (rule mm_j_loop_length [OF _ assms(1)]) simp
  have l2: "length ?t2 = 16" by (rule mm_j_loop_length [OF _ l1]) simp
  have l3: "length ?t3 = 16" by (rule mm_j_loop_length [OF _ l2]) simp
  show "length (mm_i_loop mem a b temp) = 16"
    unfolding s by (rule mm_j_loop_length [OF _ l3]) simp
  have d: "n div 4 < 4" using assms(2) by simp
  have n1: "?t1 ! n = (if n div 4 = 0 then product_entry (matrix_at mem a) (matrix_at mem b) 0 (n mod 4) else temp ! n)"
    by (rule mm_j_loop_nth [OF _ assms(1) assms(2)]) simp
  have n2: "?t2 ! n = (if n div 4 = 1 then product_entry (matrix_at mem a) (matrix_at mem b) 1 (n mod 4) else ?t1 ! n)"
    by (rule mm_j_loop_nth [OF _ l1 assms(2)]) simp
  have n3: "?t3 ! n = (if n div 4 = 2 then product_entry (matrix_at mem a) (matrix_at mem b) 2 (n mod 4) else ?t2 ! n)"
    by (rule mm_j_loop_nth [OF _ l2 assms(2)]) simp
  have n4: "?t4 ! n = (if n div 4 = 3 then product_entry (matrix_at mem a) (matrix_at mem b) 3 (n mod 4) else ?t3 ! n)"
    by (rule mm_j_loop_nth [OF _ l3 assms(2)]) simp
  show "mm_i_loop mem a b temp ! n = product_entry (matrix_at mem a) (matrix_at mem b) (n div 4) (n mod 4)"
    unfolding s n4 n3 n2 n1 using less_4_cases [OF d] by auto
qed

lemma mm_i_loop_eq:
  assumes "length temp = 16"
  shows "mm_i_loop mem a b temp = matrix_product (matrix_at mem a) (matrix_at mem b)"
proof (rule nth_equalityI)
  show "length (mm_i_loop mem a b temp) = length (matrix_product (matrix_at mem a) (matrix_at mem b))"
    using mm_i_loop_nth(1) [OF assms, of 0] by (simp add: matrix_product_def)
next
  fix n assume "n < length (mm_i_loop mem a b temp)"
  then have n: "n < 16" using mm_i_loop_nth(1) [OF assms, of 0] by simp
  show "mm_i_loop mem a b temp ! n = matrix_product (matrix_at mem a) (matrix_at mem b) ! n"
    using mm_i_loop_nth(2) [OF assms n] n by (simp add: matrix_product_def)
qed

lemma mm_copy_fold:
  "fold (\<lambda>i m. m(result + i := temp ! i)) [0..<n] mem
     = (\<lambda>p. if result \<le> p \<and> p < result + n then temp ! (p - result) else mem p)"
proof (induction n)
  case 0
  then show ?case by (auto simp: fun_eq_iff)
next
  case (Suc n)
  have "fold (\<lambda>i m. m(result + i := temp ! i)) [0..<Suc n] mem
          = (fold (\<lambda>i m. m(result + i := temp ! i)) [0..<n] mem)(result + n := temp ! n)"
    by simp
  also have "\<dots> = (\<lambda>p. if result \<le> p \<and> p < result + Suc n then temp ! (p - result) else mem p)"
    unfolding Suc by (rule ext) auto
  finally show ?case .
qed

lemma mm_copy_eq:
  "mm_copy result temp mem = (\<lambda>p. if result \<le> p \<and> p < result + 16 then temp ! (p - result) else mem p)"
  unfolding mm_copy_def by (rule mm_copy_fold)

lemma multiplyMatrix_result:
  assumes "length temp0 = 16"
  shows "matrix_at (multiplyMatrix temp0 r a b mem) r = matrix_product (matrix_at mem a) (matrix_at mem b)"
proof (rule nth_equalityI)
  show "length (matrix_at (multiplyMatrix temp0 r a b mem) r)
          = length (matrix_product (matrix_at mem a) (matrix_at mem b))"
    by (simp add: matrix_at_def matrix_product_def)
next
  fix n assume "n < length (matrix_at (multiplyMatrix temp0 r a b mem) r)"
  then have n: "n < 16" by (simp add: matrix_at_def)
  have "matrix_at (multiplyMatrix temp0 r a b mem) r ! n = multiplyMatrix temp0 r a b mem (r + n)"
    using n by (rule matrix_at_nth)
  also have "\<dots> = mm_i_loop mem a b temp0 ! n"
    using n by (simp add: multiplyMatrix_def mm_copy_eq)
  finally show "matrix_at (multiplyMatrix temp0 r a b mem) r ! n
                  = matrix_product (matrix_at mem a) (matrix_at mem b) ! n"
    by (simp add: mm_i_loop_eq [OF assms])
qed

text \<open>
  C7. Wherever the three pointers point, \<^verbatim>\<open>multiplyMatrix\<close> leaves at \<open>result\<close> the
  standard row-major product of the matrices that were stored at \<open>a\<close> and \<open>b\<close> before the
  call, whatever the local array held at first; in particular when \<open>result\<close> is \<open>a\<close> and
  when it is \<open>b\<close>, where the values are those of the product computed without aliasing.
  The product is complete in \<^verbatim>\<open>temp\<close> before the first cell of \<open>result\<close> is written. No
  cell outside the sixteen of \<open>result\<close> changes.
\<close>

theorem C7_multiply_aliasing:
  assumes "length temp0 = 16"
  shows "matrix_at (multiplyMatrix temp0 result a b mem) result
           = matrix_product (matrix_at mem a) (matrix_at mem b)
       \<and> matrix_at (multiplyMatrix temp0 a a b mem) a = matrix_product (matrix_at mem a) (matrix_at mem b)
       \<and> matrix_at (multiplyMatrix temp0 b a b mem) b = matrix_product (matrix_at mem a) (matrix_at mem b)
       \<and> (\<forall>p. p < result \<or> result + 16 \<le> p \<longrightarrow> multiplyMatrix temp0 result a b mem p = mem p)"
proof -
  have rest: "\<forall>p. p < result \<or> result + 16 \<le> p \<longrightarrow> multiplyMatrix temp0 result a b mem p = mem p"
    by (auto simp: multiplyMatrix_def mm_copy_eq)
  show ?thesis
    using multiplyMatrix_result [OF assms] rest by blast
qed

theorem C7_multiply_aliasing_witness:
  "length (replicate 16 NaN) = 16
   \<and> matrix_at (multiplyMatrix (replicate 16 NaN) 0 0 16 (\<lambda>p. Fin (of_nat p))) 0
       = matrix_product (matrix_at (\<lambda>p. Fin (of_nat p)) 0) (matrix_at (\<lambda>p. Fin (of_nat p)) 16)
   \<and> matrix_at (multiplyMatrix (replicate 16 NaN) 16 0 16 (\<lambda>p. Fin (of_nat p))) 16
       = matrix_product (matrix_at (\<lambda>p. Fin (of_nat p)) 0) (matrix_at (\<lambda>p. Fin (of_nat p)) 16)
   \<and> multiplyMatrix (replicate 16 NaN) 16 0 16 (\<lambda>p. Fin (of_nat p)) 3 = Fin 3"
proof -
  have l: "length (replicate 16 (NaN::f32)) = 16" by simp
  from C7_multiply_aliasing [OF l, of 16 0 16 "\<lambda>p. Fin (of_nat p)"] l
  show ?thesis by simp
qed

lemma is_finite_cases:
  assumes "is_finite x"
  obtains q where "x = Fin q" "rnd q = Fin q" | "x = NegZero"
  using assms by (cases x) (auto simp: is_finite_def is_f32_def is_nan_def is_inf_def)

lemma fmul_one_right: "is_finite x \<Longrightarrow> fmul x (Fin 1) = x"
  by (erule is_finite_cases) (auto simp: fmul_def is_nan_def is_inf_def is_zero_def fsign_def fval_def)

lemma fmul_one_left: "is_finite x \<Longrightarrow> fmul (Fin 1) x = x"
  by (erule is_finite_cases) (auto simp: fmul_def is_nan_def is_inf_def is_zero_def fsign_def fval_def)

lemma fmul_zero_right: "is_finite x \<Longrightarrow> is_zero (fmul x (Fin 0))"
  by (erule is_finite_cases) (auto simp: fmul_def is_nan_def is_inf_def is_zero_def fsign_def fval_def)

lemma fmul_zero_left: "is_finite x \<Longrightarrow> is_zero (fmul (Fin 0) x)"
  by (erule is_finite_cases) (auto simp: fmul_def is_nan_def is_inf_def is_zero_def fsign_def fval_def)

lemma fadd_zero_left: "is_finite x \<Longrightarrow> fadd (Fin 0) x = Fin (fval x)"
  by (erule is_finite_cases) (auto simp: fadd_def is_nan_def is_inf_def fval_def rnd_0)

lemma fadd_zero_zero: "is_zero z \<Longrightarrow> fadd (Fin 0) z = Fin 0"
  by (auto simp: fadd_def is_nan_def is_inf_def is_zero_def fval_def rnd_0)

lemma fadd_zero_right: "is_finite x \<Longrightarrow> is_zero z \<Longrightarrow> fadd (Fin (fval x)) z = Fin (fval x)"
  by (erule is_finite_cases) (auto simp: fadd_def is_nan_def is_inf_def is_zero_def fval_def rnd_0)

lemma feq_fval: "is_finite x \<Longrightarrow> feq (Fin (fval x)) x"
  by (erule is_finite_cases) (auto simp: feq_def fle_def is_nan_def fval_def)

lemmas float_identity_simps =
  fmul_one_right fmul_one_left fmul_zero_right fmul_zero_left
  fadd_zero_left fadd_zero_zero fadd_zero_right

lemma identity_entry:
  assumes "k < 4" "j < 4"
  shows "identity_matrix ! (4 * k + j) = (if k = j then Fin 1 else Fin 0)"
  using less_4_cases [OF assms(1)] less_4_cases [OF assms(2)]
  by (elim disjE) (simp_all add: identity_matrix_def)

lemma dot_unit_right:
  assumes "is_finite x0" "is_finite x1" "is_finite x2" "is_finite x3" "j < 4"
  shows "fadd (fadd (fadd (fadd (Fin 0)
           (fmul x0 (if 0 = j then Fin 1 else Fin 0)))
           (fmul x1 (if 1 = j then Fin 1 else Fin 0)))
           (fmul x2 (if 2 = j then Fin 1 else Fin 0)))
           (fmul x3 (if 3 = j then Fin 1 else Fin 0))
         = Fin (fval ([x0, x1, x2, x3] ! j))"
  using less_4_cases [OF assms(5)] assms(1-4)
  by (elim disjE) (simp_all add: float_identity_simps)

lemma dot_unit_left:
  assumes "is_finite x0" "is_finite x1" "is_finite x2" "is_finite x3" "i < 4"
  shows "fadd (fadd (fadd (fadd (Fin 0)
           (fmul (if i = 0 then Fin 1 else Fin 0) x0))
           (fmul (if i = 1 then Fin 1 else Fin 0) x1))
           (fmul (if i = 2 then Fin 1 else Fin 0) x2))
           (fmul (if i = 3 then Fin 1 else Fin 0) x3)
         = Fin (fval ([x0, x1, x2, x3] ! i))"
  using less_4_cases [OF assms(5)] assms(1-4)
  by (elim disjE) (simp_all add: float_identity_simps)

lemma product_identity_right:
  assumes fin: "\<forall>n<16. is_finite (A ! n)" and ij: "i < 4" "j < 4"
  shows "product_entry A identity_matrix i j = Fin (fval (A ! (4 * i + j)))"
proof -
  have f: "is_finite (A ! (4 * i + 0))" "is_finite (A ! (4 * i + 1))"
    "is_finite (A ! (4 * i + 2))" "is_finite (A ! (4 * i + 3))"
    using fin ij by simp_all
  have e: "identity_matrix ! (4 * 0 + j) = (if 0 = j then Fin 1 else Fin 0)"
    "identity_matrix ! (4 * 1 + j) = (if 1 = j then Fin 1 else Fin 0)"
    "identity_matrix ! (4 * 2 + j) = (if 2 = j then Fin 1 else Fin 0)"
    "identity_matrix ! (4 * 3 + j) = (if 3 = j then Fin 1 else Fin 0)"
    by (rule identity_entry; simp add: ij)+
  have "[A ! (4 * i + 0), A ! (4 * i + 1), A ! (4 * i + 2), A ! (4 * i + 3)] ! j = A ! (4 * i + j)"
    using less_4_cases [OF ij(2)] by (elim disjE) simp_all
  then show ?thesis
    unfolding product_entry_def e dot_unit_right [OF f ij(2)] by simp
qed

lemma product_identity_left:
  assumes fin: "\<forall>n<16. is_finite (A ! n)" and ij: "i < 4" "j < 4"
  shows "product_entry identity_matrix A i j = Fin (fval (A ! (4 * i + j)))"
proof -
  have f: "is_finite (A ! (4 * 0 + j))" "is_finite (A ! (4 * 1 + j))"
    "is_finite (A ! (4 * 2 + j))" "is_finite (A ! (4 * 3 + j))"
    using fin ij by simp_all
  have e: "identity_matrix ! (4 * i + 0) = (if i = 0 then Fin 1 else Fin 0)"
    "identity_matrix ! (4 * i + 1) = (if i = 1 then Fin 1 else Fin 0)"
    "identity_matrix ! (4 * i + 2) = (if i = 2 then Fin 1 else Fin 0)"
    "identity_matrix ! (4 * i + 3) = (if i = 3 then Fin 1 else Fin 0)"
    by (rule identity_entry; simp add: ij)+
  have "[A ! (4 * 0 + j), A ! (4 * 1 + j), A ! (4 * 2 + j), A ! (4 * 3 + j)] ! i = A ! (4 * i + j)"
    using less_4_cases [OF ij(1)] by (elim disjE) simp_all
  then show ?thesis
    unfolding product_entry_def e dot_unit_left [OF f ij(1)] by simp
qed

lemma matrix_product_identity:
  assumes fin: "\<forall>n<16. is_finite (A ! n)" and len: "length A = 16"
  shows "list_all2 feq (matrix_product A identity_matrix) A"
    and "list_all2 feq (matrix_product identity_matrix A) A"
proof -
  have ij: "n div 4 < 4" "n mod 4 < 4" "4 * (n div 4) + n mod 4 = n" if "n < 16" for n :: nat
    using that by simp_all
  show "list_all2 feq (matrix_product A identity_matrix) A"
    unfolding list_all2_conv_all_nth
    using fin len ij
    by (simp add: matrix_product_def product_identity_right [OF fin] feq_fval)
  show "list_all2 feq (matrix_product identity_matrix A) A"
    unfolding list_all2_conv_all_nth
    using fin len ij
    by (simp add: matrix_product_def product_identity_left [OF fin] feq_fval)
qed

lemma is_finite_samples:
  "is_finite (Fin 0)" "is_finite (Fin 1)" "is_finite (Fin (1 / 2))" "is_finite (Fin (- 3))"
  "is_finite NegZero"
proof -
  have "rnd 1 = Fin 1"
    by (rule rnd_to [where k = 8388608 and e = 126]) simp_all
  moreover have "rnd (1 / 2) = Fin (1 / 2)"
    by (rule rnd_to [where k = 8388608 and e = 125]) simp_all
  moreover have "rnd (- 3) = Fin (- 3)"
    by (rule rnd_to_neg [where k = 12582912 and e = 127]) simp_all
  ultimately show "is_finite (Fin 0)" "is_finite (Fin 1)" "is_finite (Fin (1 / 2))"
    "is_finite (Fin (- 3))" "is_finite NegZero"
    by (simp_all add: is_finite_def is_f32_def is_nan_def is_inf_def rnd_0)
qed

text \<open>
  C6, as the code has it. For every matrix \<open>A\<close> whose sixteen entries are finite floats,
  \<^verbatim>\<open>multiplyMatrix\<close> of \<open>A\<close> and the identity, in either order, leaves at \<open>result\<close> a matrix
  equal to \<open>A\<close> entry by entry under the float comparison \<^verbatim>\<open>==\<close>: no tolerance is needed
  (a negative zero of \<open>A\<close> comes out as a positive zero, which compares equal).
\<close>

theorem C6_identity_laws_finite:
  assumes "length temp0 = 16" "matrix_at mem i = identity_matrix"
    and "list_all is_finite (matrix_at mem a)"
  shows "list_all2 feq (matrix_at (multiplyMatrix temp0 result a i mem) result) (matrix_at mem a)
       \<and> list_all2 feq (matrix_at (multiplyMatrix temp0 result i a mem) result) (matrix_at mem a)"
proof -
  have len: "length (matrix_at mem a) = 16"
    by (simp add: matrix_at_def)
  have fin: "\<forall>n<16. is_finite (matrix_at mem a ! n)"
    using assms(3) len by (simp add: list_all_length)
  show ?thesis
    using matrix_product_identity [OF fin len]
    by (simp add: multiplyMatrix_result [OF assms(1)] assms(2))
qed

theorem C6_identity_laws_finite_witness:
  "length (replicate 16 NaN) = 16
   \<and> matrix_at (\<lambda>p. if p < 16 then [Fin 1, Fin 0, NegZero, Fin 0, Fin 0, Fin 1, Fin 0, Fin 0,
          Fin 0, Fin 0, Fin 1, Fin 0, Fin (1 / 2), Fin (- 3), Fin 0, Fin 1] ! p
        else identity_matrix ! (p - 16)) 16 = identity_matrix
   \<and> list_all2 feq
        (matrix_at (multiplyMatrix (replicate 16 NaN) 0 0 16
          (\<lambda>p. if p < 16 then [Fin 1, Fin 0, NegZero, Fin 0, Fin 0, Fin 1, Fin 0, Fin 0,
              Fin 0, Fin 0, Fin 1, Fin 0, Fin (1 / 2), Fin (- 3), Fin 0, Fin 1] ! p
            else identity_matrix ! (p - 16))) 0)
        [Fin 1, Fin 0, NegZero, Fin 0, Fin 0, Fin 1, Fin 0, Fin 0,
          Fin 0, Fin 0, Fin 1, Fin 0, Fin (1 / 2), Fin (- 3), Fin 0, Fin 1]"
proof -
  let ?A = "[Fin 1, Fin 0, NegZero, Fin 0, Fin 0, Fin 1, Fin 0, Fin 0,
          Fin 0, Fin 0, Fin 1, Fin 0, Fin (1 / 2), Fin (- 3), Fin 0, Fin 1]"
  let ?mem = "\<lambda>p. if p < 16 then ?A ! p else identity_matrix ! (p - 16)"
  have l: "length (replicate 16 (NaN::f32)) = 16" by simp
  have i: "matrix_at ?mem 16 = identity_matrix"
    by (rule nth_equalityI) (simp_all add: matrix_at_def identity_matrix_def)
  have a: "matrix_at ?mem 0 = ?A"
    by (simp add: matrix_at_def upt_rec)
  have f: "list_all is_finite (matrix_at ?mem 0)"
    unfolding a by (simp add: is_finite_samples)
  from C6_identity_laws_finite [OF l i f, of 0] l i show ?thesis
    unfolding a by blast
qed

text \<open>
  C6 as stated fails for a matrix with an infinite entry: the infinity times a zero of the
  identity is a NaN, which the sum keeps. With \<open>A[0] = +\<infinity>\<close> and zeros elsewhere, entry 1
  of \<^verbatim>\<open>multiply(A, Identity)\<close> is NaN where \<open>A\<close> has 0.
\<close>

theorem C6_identity_counterexample:
  "matrix_at (\<lambda>p. if p = 0 then PInf else if 16 \<le> p \<and> p < 32 then identity_matrix ! (p - 16) else Fin 0) 16
     = identity_matrix
   \<and> (\<lambda>p. if p = 0 then PInf else if 16 \<le> p \<and> p < 32 then identity_matrix ! (p - 16) else Fin 0) 1 = Fin 0
   \<and> multiplyMatrix (replicate 16 (Fin 0)) 32 0 16
        (\<lambda>p. if p = 0 then PInf else if 16 \<le> p \<and> p < 32 then identity_matrix ! (p - 16) else Fin 0) (32 + 1)
      = NaN
   \<and> \<not> feq NaN (Fin 0)"
proof -
  let ?mem = "\<lambda>p. if p = (0::nat) then PInf else if 16 \<le> p \<and> p < 32 then identity_matrix ! (p - 16) else Fin 0"
  have i: "matrix_at ?mem 16 = identity_matrix"
    by (rule nth_equalityI) (simp_all add: matrix_at_def identity_matrix_def)
  have "multiplyMatrix (replicate 16 (Fin 0)) 32 0 16 ?mem (32 + 1)
          = matrix_at (multiplyMatrix (replicate 16 (Fin 0)) 32 0 16 ?mem) 32 ! 1"
    by (simp add: matrix_at_nth)
  also have "\<dots> = product_entry (matrix_at ?mem 0) identity_matrix 0 1"
    by (simp add: multiplyMatrix_result i matrix_product_def)
  also have "\<dots> = NaN"
    by (simp add: product_entry_def matrix_at_nth identity_matrix_def fmul_def fadd_def
        is_nan_def is_inf_def is_zero_def)
  finally have r: "multiplyMatrix (replicate 16 (Fin 0)) 32 0 16 ?mem (32 + 1) = NaN" .
  have "\<not> feq NaN (Fin 0)"
    by (simp add: feq_def fle_def is_nan_def)
  then show ?thesis using i r by simp
qed
section \<open>Proofs: the sweep of the circle\<close>

lemma phase_range: "0 \<le> phase t" "phase t < 4"
proof -
  have "of_int \<lfloor>t / 4\<rfloor> \<le> t / 4" by (rule of_int_floor_le)
  then show "0 \<le> phase t" by (simp add: phase_def)
  have "t / 4 < of_int \<lfloor>t / 4\<rfloor> + 1" by linarith
  then show "phase t < 4" by (simp add: phase_def)
qed

lemma phase_period: "phase (t + 4) = phase t"
proof -
  have "\<lfloor>(t + 4) / 4\<rfloor> = \<lfloor>t / 4\<rfloor> + 1" by (simp add: add_divide_distrib)
  then show ?thesis by (simp add: phase_def)
qed

lemma phase_small: "0 \<le> t \<Longrightarrow> t < 4 \<Longrightarrow> phase t = t"
  by (simp add: phase_def floor_eq_iff [THEN iffD2])

lemma anim_cycle_phase:
  assumes "0 \<le> t"
  shows "anim_cycle (Fin t) = Fin (phase t)"
proof -
  have "0 \<le> t / 4" using assms by simp
  then have "trunc_rat (t / 4) = \<lfloor>t / 4\<rfloor>" by (simp add: trunc_rat_def)
  then show ?thesis
    using assms
    by (auto simp: anim_cycle_def fmodf_def is_nan_def is_inf_def is_zero_def fval_def
        fsign_def phase_def Let_def)
qed

lemma progress_rising:
  assumes "0 \<le> r" "r < 2"
  shows "anim_progress (Fin r) = rnd (r / 2)"
  using assms by (simp add: anim_progress_def flt_Fin fdiv_nonneg)

lemma progress_falling:
  assumes "2 \<le> r" "r < 4"
  shows "anim_progress (Fin r) = rnd (1 - fval (rnd (fval (rnd (r - 2)) / 2)))"
    and "0 \<le> fval (rnd (fval (rnd (r - 2)) / 2))"
    and "fval (rnd (fval (rnd (r - 2)) / 2)) \<le> 1"
proof -
  define u where "u = fval (rnd (r - 2))"
  define v where "v = fval (rnd (u / 2))"
  have r: "0 \<le> r - 2" "r - 2 \<le> 2" "r - 2 \<le> 2 ^ 100" using assms by simp_all
  have u: "rnd (r - 2) = Fin u" "0 \<le> u"
    unfolding u_def using r(1,3) by (rule rnd_finite)+
  have "u \<le> fval (rnd 2)" unfolding u_def using r(1,2) by (intro fval_rnd_mono) simp_all
  then have u2: "u \<le> 2" by (simp add: rnd_2 fval_def)
  then have h: "0 \<le> u / 2" "u / 2 \<le> 1" "u / 2 \<le> 2 ^ 100" using u(2) by simp_all
  have v: "rnd (u / 2) = Fin v" "0 \<le> v"
    unfolding v_def using h(1,3) by (rule rnd_finite)+
  have "v \<le> fval (rnd 1)" unfolding v_def using h(1,2) by (intro fval_rnd_mono) simp_all
  then have v1: "v \<le> 1" by (simp add: rnd_1 fval_def)
  have "anim_progress (Fin r) = fsub (Fin 1) (fdiv (fsub (Fin r) (Fin 2)) (Fin 2))"
    using assms(1) by (simp add: anim_progress_def flt_Fin)
  also have "\<dots> = fsub (Fin 1) (fdiv (Fin u) (Fin 2))" by (simp only: fsub_Fin u(1))
  also have "\<dots> = fsub (Fin 1) (Fin v)" using u(2) by (simp add: fdiv_nonneg v(1))
  also have "\<dots> = rnd (1 - v)" by (rule fsub_Fin)
  finally show "anim_progress (Fin r) = rnd (1 - fval (rnd (fval (rnd (r - 2)) / 2)))"
    by (simp only: u_def v_def)
  show "0 \<le> fval (rnd (fval (rnd (r - 2)) / 2))" using v(2) by (simp only: u_def v_def)
  show "fval (rnd (fval (rnd (r - 2)) / 2)) \<le> 1" using v1 by (simp only: u_def v_def)
qed

lemma progress_value:
  assumes "0 \<le> r" "r < 4"
  shows "anim_progress (Fin r) = Fin (fval (anim_progress (Fin r)))"
    and "0 \<le> fval (anim_progress (Fin r))"
    and "fval (anim_progress (Fin r)) \<le> 1"
proof -
  have "anim_progress (Fin r) = Fin (fval (anim_progress (Fin r)))
      \<and> 0 \<le> fval (anim_progress (Fin r)) \<and> fval (anim_progress (Fin r)) \<le> 1"
  proof (cases "r < 2")
    case True
    have h: "0 \<le> r / 2" "r / 2 \<le> 1" "r / 2 \<le> 2 ^ 100" using assms(1) True by simp_all
    have "fval (rnd (r / 2)) \<le> fval (rnd 1)" using h(1,2) by (intro fval_rnd_mono) simp_all
    then have "fval (rnd (r / 2)) \<le> 1" by (simp add: rnd_1 fval_def)
    then show ?thesis
      using rnd_finite [OF h(1,3)] by (simp add: progress_rising [OF assms(1) True])
  next
    case False
    then have r2: "2 \<le> r" by simp
    define v where "v = fval (rnd (fval (rnd (r - 2)) / 2))"
    have v: "0 \<le> v" "v \<le> 1"
      unfolding v_def by (rule progress_falling [OF r2 assms(2)])+
    then have h: "0 \<le> 1 - v" "1 - v \<le> 1" "1 - v \<le> 2 ^ 100" by simp_all
    have "fval (rnd (1 - v)) \<le> fval (rnd 1)" using h(1,2) by (intro fval_rnd_mono) simp_all
    then have "fval (rnd (1 - v)) \<le> 1" by (simp add: rnd_1 fval_def)
    moreover have "anim_progress (Fin r) = rnd (1 - v)"
      unfolding v_def by (rule progress_falling [OF r2 assms(2)])
    ultimately show ?thesis
      using rnd_finite [OF h(1,3)] by simp
  qed
  then show "anim_progress (Fin r) = Fin (fval (anim_progress (Fin r)))"
    and "0 \<le> fval (anim_progress (Fin r))"
    and "fval (anim_progress (Fin r)) \<le> 1" by simp_all
qed

lemma progress_0: "anim_progress (Fin 0) = Fin 0"
  using progress_rising [of 0] by (simp add: rnd_0)

lemma progress_2: "anim_progress (Fin 2) = Fin 1"
  using progress_falling(1) [of 2] by (simp add: rnd_0 fval_def rnd_1)

lemma progress_up:
  assumes "0 \<le> r1" "r1 \<le> r2" "r2 \<le> 2"
  shows "fval (anim_progress (Fin r1)) \<le> fval (anim_progress (Fin r2))"
proof (cases "r2 < 2")
  case True
  then have "r1 < 2" using assms(2) by simp
  have "fval (rnd (r1 / 2)) \<le> fval (rnd (r2 / 2))"
    using assms True by (intro fval_rnd_mono) simp_all
  then show ?thesis
    using assms True \<open>r1 < 2\<close> by (simp add: progress_rising)
next
  case False
  then have "r2 = 2" using assms(3) by simp
  moreover have "fval (anim_progress (Fin r1)) \<le> 1"
    using assms by (intro progress_value) simp_all
  ultimately show ?thesis by (simp add: progress_2 fval_def)
qed

lemma progress_down:
  assumes "2 \<le> r1" "r1 \<le> r2" "r2 < 4"
  shows "fval (anim_progress (Fin r2)) \<le> fval (anim_progress (Fin r1))"
proof -
  have r1: "2 \<le> r1" "r1 < 4" and r2: "2 \<le> r2" "r2 < 4" using assms by simp_all
  define u1 where "u1 = fval (rnd (r1 - 2))"
  define u2 where "u2 = fval (rnd (r2 - 2))"
  define v1 where "v1 = fval (rnd (u1 / 2))"
  define v2 where "v2 = fval (rnd (u2 / 2))"
  have "0 \<le> u1" unfolding u1_def using r1 by (intro rnd_finite) simp_all
  have "u2 \<le> fval (rnd 2)" unfolding u2_def using r2 by (intro fval_rnd_mono) simp_all
  then have "u2 \<le> 2" by (simp add: rnd_2 fval_def)
  have "u1 \<le> u2" unfolding u1_def u2_def using assms by (intro fval_rnd_mono) simp_all
  then have "v1 \<le> v2"
    unfolding v1_def v2_def using \<open>0 \<le> u1\<close> \<open>u2 \<le> 2\<close> by (intro fval_rnd_mono) simp_all
  have "0 \<le> v1" "v1 \<le> 1" "0 \<le> v2" "v2 \<le> 1"
    unfolding v1_def v2_def u1_def u2_def
    using progress_falling(2,3) [OF r1] progress_falling(2,3) [OF r2] by simp_all
  then have "fval (rnd (1 - v2)) \<le> fval (rnd (1 - v1))"
    using \<open>v1 \<le> v2\<close> by (intro fval_rnd_mono) simp_all
  then show ?thesis
    unfolding v1_def v2_def u1_def u2_def
    by (simp only: progress_falling(1) [OF r1] progress_falling(1) [OF r2])
qed

lemma edges_value:
  assumes "200 \<le> w" "w \<le> 2 ^ 24"
  shows "rightEdge w = Fin (of_int w - 100)"
    and "fsub (rightEdge w) leftEdge = Fin (of_int w - 200)"
proof -
  have "rnd (of_int (w - 100)) = Fin (of_int (w - 100))"
    using assms by (intro rnd_int) simp_all
  then have a: "rnd (of_int w - 100) = Fin (of_int w - 100)" by simp
  have "rnd (of_int (w - 200)) = Fin (of_int (w - 200))"
    using assms by (intro rnd_int) simp_all
  then have b: "rnd (of_int w - 200) = Fin (of_int w - 200)" by simp
  show r: "rightEdge w = Fin (of_int w - 100)"
    using assms by (simp add: rightEdge_def float_of_int_exact fsub_Fin a)
  have "of_int w - 100 - 100 = (of_int w - 200 :: rat)" by simp
  then show "fsub (rightEdge w) leftEdge = Fin (of_int w - 200)"
    by (simp only: r leftEdge_def fsub_Fin b)
qed

lemma circle_cx_value:
  assumes "0 \<le> t" "200 \<le> w" "w \<le> 2 ^ 24"
  shows "circle_cx (Fin t) w =
     rnd (100 + fval (rnd (fval (anim_progress (Fin (phase t))) * (of_int w - 200))))"
proof -
  define p where "p = fval (anim_progress (Fin (phase t)))"
  have p: "anim_progress (Fin (phase t)) = Fin p" "0 \<le> p" "p \<le> 1"
    unfolding p_def by (rule progress_value [OF phase_range])+
  have d: "(0 :: rat) \<le> of_int w - 200" using assms(2) by simp
  have "p * (of_int w - 200) \<le> 1 * (of_int w - 200)"
    using p(3) d by (rule mult_right_mono)
  also have "\<dots> \<le> 2 ^ 24" using assms(3) by (simp flip: of_int_le_iff)
  also have "\<dots> \<le> (2 :: rat) ^ 100" by (intro power_increasing) simp_all
  finally have "p * (of_int w - 200) \<le> 2 ^ 100" .
  moreover have "0 \<le> p * (of_int w - 200)" using p(2) d by simp
  ultimately have m: "rnd (p * (of_int w - 200)) = Fin (fval (rnd (p * (of_int w - 200))))"
    by (intro rnd_finite)
  have "circle_cx (Fin t) w = fadd leftEdge (fmul (Fin p) (Fin (of_int w - 200)))"
    by (simp only: circle_cx_def anim_cycle_phase [OF assms(1)] p(1)
        edges_value(2) [OF assms(2,3)])
  also have "\<dots> = fadd (Fin 100) (fmul (Fin p) (Fin (of_int w - 200)))"
    by (simp only: leftEdge_def)
  also have "\<dots> = fadd (Fin 100) (rnd (p * (of_int w - 200)))"
    using p(2) d by (simp only: fmul_nonneg)
  also have "\<dots> = rnd (100 + fval (rnd (p * (of_int w - 200))))"
    by (subst m) (rule fadd_Fin)
  finally show ?thesis by (simp only: p_def)
qed

lemma sweep_value:
  assumes "0 \<le> p" "p \<le> 1" "200 \<le> w" "w \<le> 2 ^ 24"
  shows "rnd (100 + fval (rnd (p * (of_int w - 200))))
       = Fin (fval (rnd (100 + fval (rnd (p * (of_int w - 200))))))"
    and "100 \<le> fval (rnd (100 + fval (rnd (p * (of_int w - 200)))))"
    and "fval (rnd (100 + fval (rnd (p * (of_int w - 200))))) \<le> of_int w - 100"
    and "0 \<le> fval (rnd (p * (of_int w - 200)))"
    and "fval (rnd (p * (of_int w - 200))) \<le> of_int w - 200"
proof -
  define D :: rat where "D = of_int w - 200"
  define m where "m = fval (rnd (p * D))"
  have d: "0 \<le> D" "D \<le> 2 ^ 24" using assms(3,4) by (simp_all add: D_def flip: of_int_le_iff)
  have "(2 :: rat) ^ 24 \<le> 2 ^ 100" by (intro power_increasing) simp_all
  then have big: "D \<le> 2 ^ 100" using d(2) by simp
  have pd: "0 \<le> p * D" "p * D \<le> D" using assms(1,2) d(1) by (simp_all add: mult_left_le_one_le)
  have m0: "0 \<le> m" unfolding m_def using pd big by (intro rnd_finite) simp_all
  have "rnd (of_int (w - 200)) = Fin (of_int (w - 200))"
    using assms(3,4) by (intro rnd_int) simp_all
  then have rD: "rnd D = Fin D" by (simp add: D_def)
  have "m \<le> fval (rnd D)" unfolding m_def using pd big by (intro fval_rnd_mono) simp_all
  then have mD: "m \<le> D" by (simp add: rD fval_def)
  have "100 + m \<le> 100 + (2 :: rat) ^ 24" using mD d(2) by simp
  also have "\<dots> \<le> 2 ^ 100" by simp
  finally have s: "0 \<le> 100 + m" "100 + m \<le> 2 ^ 100" using m0 by simp_all
  have "rnd (of_int (w - 100)) = Fin (of_int (w - 100))"
    using assms(3,4) by (intro rnd_int) simp_all
  then have rR: "rnd (100 + D) = Fin (of_int w - 100)" by (simp add: D_def)
  have lo: "fval (rnd 100) \<le> fval (rnd (100 + m))"
    using m0 s(2) by (intro fval_rnd_mono) simp_all
  have "100 + D \<le> 2 ^ 100" using d(2) \<open>(2 :: rat) ^ 24 \<le> 2 ^ 100\<close> by simp
  then have hi: "fval (rnd (100 + m)) \<le> fval (rnd (100 + D))"
    using m0 mD by (intro fval_rnd_mono) simp_all
  show "rnd (100 + fval (rnd (p * (of_int w - 200))))
       = Fin (fval (rnd (100 + fval (rnd (p * (of_int w - 200))))))"
    using rnd_finite(1) [OF s] by (simp only: m_def D_def)
  have "fval (rnd 100) = 100" by (simp only: rnd_100 fval_def f32.case)
  then have "100 \<le> fval (rnd (100 + m))" using lo by simp
  then show "100 \<le> fval (rnd (100 + fval (rnd (p * (of_int w - 200)))))"
    by (simp only: m_def D_def)
  have "fval (rnd (100 + D)) = of_int w - 100" by (simp only: rR fval_def f32.case)
  then have "fval (rnd (100 + m)) \<le> of_int w - 100" using hi by simp
  then show "fval (rnd (100 + fval (rnd (p * (of_int w - 200))))) \<le> of_int w - 100"
    by (simp only: m_def D_def)
  show "0 \<le> fval (rnd (p * (of_int w - 200)))" using m0 by (simp only: m_def D_def)
  show "fval (rnd (p * (of_int w - 200))) \<le> of_int w - 200" using mD by (simp only: m_def D_def)
qed

lemma sweep_mono:
  assumes "0 \<le> p1" "p1 \<le> p2" "p2 \<le> 1" "200 \<le> w" "w \<le> 2 ^ 24"
  shows "fval (rnd (100 + fval (rnd (p1 * (of_int w - 200)))))
       \<le> fval (rnd (100 + fval (rnd (p2 * (of_int w - 200)))))"
proof -
  define D :: rat where "D = of_int w - 200"
  have d: "0 \<le> D" "D \<le> 2 ^ 24" using assms(4,5) by (simp_all add: D_def flip: of_int_le_iff)
  have "(2 :: rat) ^ 24 \<le> 2 ^ 100" by (intro power_increasing) simp_all
  then have big: "D \<le> 2 ^ 100" using d(2) by simp
  have "p2 * D \<le> D" using assms d(1) by (simp add: mult_left_le_one_le)
  then have "p2 * D \<le> 2 ^ 100" using big by simp
  moreover have "p1 * D \<le> p2 * D" using assms(2) d(1) by (rule mult_right_mono)
  moreover have "0 \<le> p1 * D" using assms(1) d(1) by simp
  ultimately have m: "fval (rnd (p1 * D)) \<le> fval (rnd (p2 * D))"
    by (intro fval_rnd_mono)
  have p2: "0 \<le> p2" using assms by simp
  have "fval (rnd (p2 * D)) \<le> D"
    unfolding D_def by (rule sweep_value(5) [OF p2 assms(3,4,5)])
  then have "100 + fval (rnd (p2 * D)) \<le> 2 ^ 100"
    using d(2) \<open>(2 :: rat) ^ 24 \<le> 2 ^ 100\<close> by simp
  moreover have "0 \<le> fval (rnd (p1 * D))"
    unfolding D_def using assms by (intro sweep_value(4)) simp_all
  ultimately show ?thesis
    unfolding D_def [symmetric] using m by (intro fval_rnd_mono) simp_all
qed

lemma progress_error:
  assumes "0 \<le> r" "r < 4"
  shows "\<bar>fval (anim_progress (Fin r)) - triangle r\<bar> \<le> 1 / 2 ^ 22"
proof (cases "r < 2")
  case True
  have "\<bar>fval (rnd (r / 2)) - r / 2\<bar> \<le> r / 2 / 2 ^ 24 + 1 / 2 ^ 150"
    using assms(1) True by (intro rnd_error_rel) simp_all
  moreover have "r / 2 / 2 ^ 24 \<le> 1 / 2 ^ 24"
    using True by (intro divide_right_mono) simp_all
  moreover have "1 / 2 ^ 24 + 1 / 2 ^ 150 \<le> (1 / 2 ^ 22 :: rat)" by simp
  ultimately have "\<bar>fval (rnd (r / 2)) - r / 2\<bar> \<le> 1 / 2 ^ 22"
    by linarith
  then show ?thesis
    using True by (simp only: progress_rising [OF assms(1) True] triangle_def if_True)
next
  case False
  then have r2: "2 \<le> r" by simp
  define u where "u = fval (rnd (r - 2))"
  define v where "v = fval (rnd (u / 2))"
  have v: "0 \<le> v" "v \<le> 1"
    unfolding v_def u_def by (rule progress_falling [OF r2 assms(2)])+
  have u0: "0 \<le> u" unfolding u_def using r2 assms(2) by (intro rnd_finite) simp_all
  have "u \<le> fval (rnd 2)" unfolding u_def using r2 assms(2) by (intro fval_rnd_mono) simp_all
  then have u2: "u \<le> 2" by (simp add: rnd_2 fval_def)
  have "\<bar>u - (r - 2)\<bar> \<le> (r - 2) / 2 ^ 24 + 1 / 2 ^ 150"
    unfolding u_def using r2 assms(2) by (intro rnd_error_rel) simp_all
  moreover have "(r - 2) / 2 ^ 24 \<le> 2 / 2 ^ 24"
    using assms(2) by (intro divide_right_mono) simp_all
  ultimately have eu: "\<bar>u - (r - 2)\<bar> \<le> 2 / 2 ^ 24 + 1 / 2 ^ 150"
    by linarith
  have "\<bar>v - u / 2\<bar> \<le> u / 2 / 2 ^ 24 + 1 / 2 ^ 150"
    unfolding v_def using u0 u2 by (intro rnd_error_rel) simp_all
  moreover have "u / 2 / 2 ^ 24 \<le> 1 / 2 ^ 24"
    using u2 by (intro divide_right_mono) simp_all
  ultimately have ev: "\<bar>v - u / 2\<bar> \<le> 1 / 2 ^ 24 + 1 / 2 ^ 150"
    by linarith
  have "\<bar>fval (rnd (1 - v)) - (1 - v)\<bar> \<le> (1 - v) / 2 ^ 24 + 1 / 2 ^ 150"
    using v by (intro rnd_error_rel) simp_all
  moreover have "(1 - v) / 2 ^ 24 \<le> 1 / 2 ^ 24"
    using v(1) by (intro divide_right_mono) simp_all
  ultimately have ep: "\<bar>fval (rnd (1 - v)) - (1 - v)\<bar> \<le> 1 / 2 ^ 24 + 1 / 2 ^ 150"
    by linarith
  have "\<bar>fval (rnd (1 - v)) - (1 - (r - 2) / 2)\<bar>
      \<le> \<bar>fval (rnd (1 - v)) - (1 - v)\<bar> + \<bar>v - u / 2\<bar> + \<bar>u - (r - 2)\<bar> / 2"
    by (simp add: abs_if field_simps split: if_splits)
  also have "\<dots> \<le> 1 / 2 ^ 24 + 1 / 2 ^ 150 + (1 / 2 ^ 24 + 1 / 2 ^ 150) + (2 / 2 ^ 24 + 1 / 2 ^ 150) / 2"
    by (intro add_mono divide_right_mono ep ev eu) simp
  also have "\<dots> \<le> 1 / 2 ^ 22" by simp
  finally have "\<bar>fval (rnd (1 - v)) - (1 - (r - 2) / 2)\<bar> \<le> 1 / 2 ^ 22" .
  moreover have "anim_progress (Fin r) = rnd (1 - v)"
    unfolding v_def u_def by (rule progress_falling [OF r2 assms(2)])
  ultimately show ?thesis
    using False by (simp only: triangle_def if_False)
qed

lemma sweep_error:
  assumes "0 \<le> p" "p \<le> 1" "200 \<le> w" "w \<le> 2 ^ 24" "\<bar>p - c\<bar> \<le> 1 / 2 ^ 22"
  shows "\<bar>fval (rnd (100 + fval (rnd (p * (of_int w - 200))))) - (100 + c * (of_int w - 200))\<bar>
       \<le> of_int w / 2 ^ 21"
proof -
  define D :: rat where "D = of_int w - 200"
  define m where "m = fval (rnd (p * D))"
  define x where "x = fval (rnd (100 + m))"
  have d: "0 \<le> D" "D \<le> 2 ^ 24" using assms(3,4) by (simp_all add: D_def flip: of_int_le_iff)
  have pd: "0 \<le> p * D" "p * D \<le> D" using assms(1,2) d(1) by (simp_all add: mult_left_le_one_le)
  have m: "0 \<le> m" "m \<le> D"
    unfolding m_def D_def by (rule sweep_value [OF assms(1-4)])+
  have "\<bar>m - p * D\<bar> \<le> p * D / 2 ^ 24 + 1 / 2 ^ 150"
    unfolding m_def using pd d(2) by (intro rnd_error_rel) simp_all
  moreover have "p * D / 2 ^ 24 \<le> D / 2 ^ 24"
    using pd(2) by (intro divide_right_mono) simp_all
  ultimately have em: "\<bar>m - p * D\<bar> \<le> D / 2 ^ 24 + 1 / 2 ^ 150"
    by linarith
  have "\<bar>x - (100 + m)\<bar> \<le> (100 + m) / 2 ^ 24 + 1 / 2 ^ 150"
    unfolding x_def using m d(2) by (intro rnd_error_rel) simp_all
  moreover have "(100 + m) / 2 ^ 24 \<le> (100 + D) / 2 ^ 24"
    using m(2) by (intro divide_right_mono) simp_all
  ultimately have ex: "\<bar>x - (100 + m)\<bar> \<le> (100 + D) / 2 ^ 24 + 1 / 2 ^ 150"
    by linarith
  have "\<bar>p * D - c * D\<bar> = \<bar>p - c\<bar> * D"
    using d(1) by (simp add: abs_mult flip: left_diff_distrib)
  also have "\<dots> \<le> 1 / 2 ^ 22 * D" using assms(5) d(1) by (rule mult_right_mono)
  finally have ep: "\<bar>p * D - c * D\<bar> \<le> 1 / 2 ^ 22 * D" .
  have "\<bar>x - (100 + c * D)\<bar> \<le> \<bar>x - (100 + m)\<bar> + \<bar>m - p * D\<bar> + \<bar>p * D - c * D\<bar>"
    by linarith
  also have "\<dots> \<le> (100 + D) / 2 ^ 24 + 1 / 2 ^ 150 + (D / 2 ^ 24 + 1 / 2 ^ 150) + 1 / 2 ^ 22 * D"
    by (intro add_mono ex em ep)
  also have "\<dots> \<le> (D + 200) / 2 ^ 21"
    using d(1) by (simp add: field_simps)
  finally have "\<bar>x - (100 + c * D)\<bar> \<le> (D + 200) / 2 ^ 21" .
  then show ?thesis by (simp add: x_def m_def D_def)
qed

lemma sweep_cex_p1: "rnd (1 / 16) = Fin (1 / 16)"
  by (rule rnd_to [where k = 8388608 and e = 122]) simp_all

lemma sweep_cex_p2: "rnd (8388609 / 134217728) = Fin (8388609 / 134217728)"
  by (rule rnd_to [where k = 8388609 and e = 122]) simp_all

lemma sweep_cex_m1: "rnd (75 / 2) = Fin (75 / 2)"
  by (rule rnd_to [where k = 9830400 and e = 131]) simp_all

lemma sweep_cex_m2: "rnd (629145675 / 16777216) = Fin (9830401 / 262144)"
  by (rule rnd_to [where k = 9830401 and e = 131]) simp_all

lemma sweep_cex_c1: "rnd (275 / 2) = Fin (275 / 2)"
  by (rule rnd_to [where k = 9011200 and e = 133]) simp_all

lemma sweep_cex_c2: "rnd (36044801 / 262144) = Fin (275 / 2)"
  by (rule rnd_to [where k = 9011200 and e = 133]) simp_all

lemma sweep_cex_t2: "rnd (8388609 / 67108864) = Fin (8388609 / 67108864)"
  by (rule rnd_to [where k = 8388609 and e = 123]) simp_all

lemma rnd_half: "rnd (1 / 2) = Fin (1 / 2)"
  by (rule rnd_to [where k = 8388608 and e = 125]) simp_all

text \<open>
  Claim C2, as it holds of the code: for a time accumulator \<open>t \<ge> 0\<close> and a buffer width
  from 200 to \<open>2^24\<close>, the centre \<open>cx\<close> computed by \<^verbatim>\<open>drawFrame\<close> has period 4 in \<open>t\<close> and
  depends on \<open>t\<close> only through \<open>t mod 4\<close>; it does not decrease while \<open>t mod 4\<close> goes from
  0 to 2 and does not increase while it goes from 2 up to 4; it lies between
  \<open>leftEdge = 100\<close> and \<open>rightEdge = width - 100\<close>, is \<open>leftEdge\<close> at \<open>t mod 4 = 0\<close> and
  \<open>rightEdge\<close> at \<open>t mod 4 = 2\<close>; and it differs from the piecewise linear triangle
  wave between the two edges by at most \<open>width / 2^21\<close>.
\<close>

theorem C2_circle_sweep:
  assumes "0 \<le> t1" "0 \<le> t2" "200 \<le> width" "width \<le> 16777216"
  shows "circle_cx (Fin (t1 + 4)) width = circle_cx (Fin t1) width
     \<and> (phase t1 = phase t2 \<longrightarrow> circle_cx (Fin t1) width = circle_cx (Fin t2) width)
     \<and> (phase t1 \<le> phase t2 \<and> phase t2 \<le> 2
          \<longrightarrow> fle (circle_cx (Fin t1) width) (circle_cx (Fin t2) width))
     \<and> (2 \<le> phase t1 \<and> phase t1 \<le> phase t2
          \<longrightarrow> fle (circle_cx (Fin t2) width) (circle_cx (Fin t1) width))
     \<and> fle leftEdge (circle_cx (Fin t1) width)
     \<and> fle (circle_cx (Fin t1) width) (rightEdge width)
     \<and> (phase t1 = 0 \<longrightarrow> circle_cx (Fin t1) width = leftEdge)
     \<and> (phase t1 = 2 \<longrightarrow> circle_cx (Fin t1) width = rightEdge width)
     \<and> \<bar>fval (circle_cx (Fin t1) width) - cx_exact t1 width\<bar> \<le> of_int width / 2 ^ 21"
proof -
  have w: "200 \<le> width" "width \<le> 2 ^ 24" using assms(3,4) by simp_all
  define P where "P r = fval (anim_progress (Fin r))" for r
  define X where "X p = fval (rnd (100 + fval (rnd (p * (of_int width - 200)))))" for p
  have P: "0 \<le> P (phase t)" "P (phase t) \<le> 1" for t
    unfolding P_def by (rule progress_value [OF phase_range])+
  have cx: "circle_cx (Fin t) width = Fin (X (P (phase t)))" if "0 \<le> t" for t
    unfolding X_def
    using sweep_value(1) [OF P w] by (simp only: circle_cx_value [OF that w] P_def)
  have t4: "0 \<le> t1 + 4" using assms(1) by simp
  have period: "circle_cx (Fin (t1 + 4)) width = circle_cx (Fin t1) width"
    by (simp only: cx [OF t4] cx [OF assms(1)] phase_period)
  have same: "circle_cx (Fin t1) width = circle_cx (Fin t2) width" if "phase t1 = phase t2"
    using that by (simp only: cx [OF assms(1)] cx [OF assms(2)])
  have up: "fle (circle_cx (Fin t1) width) (circle_cx (Fin t2) width)"
    if "phase t1 \<le> phase t2 \<and> phase t2 \<le> 2"
  proof -
    have "P (phase t1) \<le> P (phase t2)"
      unfolding P_def using that phase_range(1) [of t1] by (intro progress_up) simp_all
    then have "X (P (phase t1)) \<le> X (P (phase t2))"
      unfolding X_def using P w by (intro sweep_mono)
    then show ?thesis by (simp only: cx [OF assms(1)] cx [OF assms(2)] fle_Fin)
  qed
  have down: "fle (circle_cx (Fin t2) width) (circle_cx (Fin t1) width)"
    if "2 \<le> phase t1 \<and> phase t1 \<le> phase t2"
  proof -
    have "P (phase t2) \<le> P (phase t1)"
      unfolding P_def using that phase_range(2) [of t2] by (intro progress_down) simp_all
    then have "X (P (phase t2)) \<le> X (P (phase t1))"
      unfolding X_def using P w by (intro sweep_mono)
    then show ?thesis by (simp only: cx [OF assms(1)] cx [OF assms(2)] fle_Fin)
  qed
  have lo: "fle leftEdge (circle_cx (Fin t1) width)"
    using sweep_value(2) [OF P w, of t1]
    by (simp only: cx [OF assms(1)] leftEdge_def fle_Fin X_def)
  have hi: "fle (circle_cx (Fin t1) width) (rightEdge width)"
    using sweep_value(3) [OF P w, of t1]
    by (simp only: cx [OF assms(1)] edges_value(1) [OF w] fle_Fin X_def)
  have left: "circle_cx (Fin t1) width = leftEdge" if "phase t1 = 0"
    using that
    by (simp add: circle_cx_value [OF assms(1) w] progress_0 fval_def rnd_0 rnd_100 leftEdge_def)
  have right: "circle_cx (Fin t1) width = rightEdge width" if "phase t1 = 2"
  proof -
    have "rnd (of_int (width - 200)) = Fin (of_int (width - 200))"
      using w by (intro rnd_int) simp_all
    then have a: "rnd (of_int width - 200) = Fin (of_int width - 200)" by simp
    have "rnd (of_int (width - 100)) = Fin (of_int (width - 100))"
      using w by (intro rnd_int) simp_all
    then have b: "rnd (of_int width - 100) = Fin (of_int width - 100)" by simp
    show ?thesis
      using that
      by (simp add: circle_cx_value [OF assms(1) w] progress_2 fval_def a b edges_value(1) [OF w])
  qed
  have "\<bar>P (phase t1) - triangle (phase t1)\<bar> \<le> 1 / 2 ^ 22"
    unfolding P_def by (rule progress_error [OF phase_range])
  then have "\<bar>X (P (phase t1)) - (100 + triangle (phase t1) * (of_int width - 200))\<bar>
      \<le> of_int width / 2 ^ 21"
    unfolding X_def using P w by (intro sweep_error)
  moreover have "fval (circle_cx (Fin t1) width) = X (P (phase t1))"
    by (simp only: cx [OF assms(1)] fval_def f32.case)
  moreover have "cx_exact t1 width = 100 + triangle (phase t1) * (of_int width - 200)"
    by (simp add: cx_exact_def)
  ultimately have lin: "\<bar>fval (circle_cx (Fin t1) width) - cx_exact t1 width\<bar> \<le> of_int width / 2 ^ 21"
    by simp
  from period same up down lo hi left right lin show ?thesis by blast
qed

text \<open>The theorem at width 1080, for the times 1/2 and 1 and the times 5/2 and 3.\<close>

theorem C2_circle_sweep_witness:
  "fle (circle_cx (Fin (1 / 2)) 1080) (circle_cx (Fin 1) 1080)
   \<and> fle (circle_cx (Fin 3) 1080) (circle_cx (Fin (5 / 2)) 1080)
   \<and> circle_cx (Fin (1 / 2 + 4)) 1080 = circle_cx (Fin (1 / 2)) 1080
   \<and> fle leftEdge (circle_cx (Fin (1 / 2)) 1080)
   \<and> fle (circle_cx (Fin (1 / 2)) 1080) (rightEdge 1080)
   \<and> \<bar>fval (circle_cx (Fin (1 / 2)) 1080) - 320\<bar> \<le> 1080 / 2 ^ 21"
proof -
  have p: "phase (1 / 2) = 1 / 2" "phase 1 = 1" "phase (5 / 2) = 5 / 2" "phase 3 = 3"
    by (simp_all add: phase_small)
  have e: "cx_exact (1 / 2) 1080 = 320"
    by (simp add: cx_exact_def p triangle_def)
  show ?thesis
    using C2_circle_sweep [of "1 / 2" 1 1080] C2_circle_sweep [of "5 / 2" 3 1080]
    by (simp add: p e)
qed

text \<open>
  Claim C2 as stated does not hold. At width 200 the two edges coincide and \<open>cx\<close> is 100
  at the times 0 and 1. At width 800 the adjacent \<^verbatim>\<open>float\<close> times \<open>1/8\<close> and
  \<open>1/8 + 2^-26\<close> give the same \<open>cx = 137.5\<close>: the increase is below the rounding of
  the sum. In both cases \<open>cx\<close> is not strictly increasing on \<open>[0, 2)\<close>.
\<close>

theorem C2_counterexample:
  "phase 0 < phase 1 \<and> phase 1 < 2
   \<and> \<not> flt (circle_cx (Fin 0) 200) (circle_cx (Fin 1) 200)
   \<and> is_f32 (Fin (1 / 8)) \<and> is_f32 (Fin (8388609 / 67108864))
   \<and> phase (1 / 8) < phase (8388609 / 67108864) \<and> phase (8388609 / 67108864) < 2
   \<and> \<not> flt (circle_cx (Fin (1 / 8)) 800) (circle_cx (Fin (8388609 / 67108864)) 800)"
proof -
  have p: "phase 0 = 0" "phase 1 = 1" "phase (1 / 8) = 1 / 8"
      "phase (8388609 / 67108864) = 8388609 / 67108864"
    by (simp_all add: phase_small)
  have a: "circle_cx (Fin 0) 200 = Fin 100"
    using circle_cx_value [of 0 200]
    by (simp add: p progress_0 fval_def rnd_0 rnd_100)
  have b: "circle_cx (Fin 1) 200 = Fin 100"
    using circle_cx_value [of 1 200]
    by (simp add: p progress_rising rnd_half fval_def rnd_0 rnd_100)
  have c: "circle_cx (Fin (1 / 8)) 800 = Fin (275 / 2)"
    using circle_cx_value [of "1 / 8" 800]
    by (simp add: p progress_rising sweep_cex_p1 fval_def sweep_cex_m1 sweep_cex_c1)
  have d: "circle_cx (Fin (8388609 / 67108864)) 800 = Fin (275 / 2)"
    using circle_cx_value [of "8388609 / 67108864" 800]
    by (simp add: p progress_rising sweep_cex_p2 fval_def sweep_cex_m2 sweep_cex_c2)
  have f: "is_f32 (Fin (1 / 8))" "is_f32 (Fin (8388609 / 67108864))"
    using rnd_dyadic [of 1 3] by (simp_all add: is_f32_def sweep_cex_t2)
  show ?thesis
    by (simp add: p a b c d f flt_Fin)
qed
section \<open>Proofs: the pixels of the circle\<close>

declare circle_row.simps [simp del] circle_rows.simps [simp del]




subsection \<open>The distance test in \<^verbatim>\<open>float\<close>\<close>
















subsection \<open>The test and the exact squared distance\<close>







subsection \<open>The grid of the values, and more values that rounding leaves alone\<close>









subsection \<open>The centre of the circle in a frame\<close>



subsection \<open>The bounding box\<close>




subsection \<open>Pixels exactly on the circle\<close>








subsection \<open>The frame\<close>
















































end
